theory Spec2Isabelle
  imports Complex_Main "HOL-Library.AList"
begin

section \<open>Python values, strings and exceptions\<close>

text \<open>
  Exceptions raised by the spreadsheet core are values of \<open>py_error\<close>; a function that can
  raise returns \<open>py_error + 'a\<close> with \<open>Inl\<close> for the exception.
  Strings are lists of 8-bit characters, read as the code points below 256. The character
  classes are those of Python's \<open>str\<close> methods on that range: besides the ASCII
  characters, \<open>isspace\<close> holds of U+0085 and U+00A0, \<open>isdigit\<close> of the superscripts
  U+00B2, U+00B3 and U+00B9, \<open>isalpha\<close> of the letters of the Latin-1 supplement, and
  \<open>isalnum\<close> also of the fractions U+00BC to U+00BE. The class \<open>\d\<close> of a regular
  expression and the digits read by \<open>int\<close> and \<open>float\<close> are the decimal digits, which
  below 256 are \<open>0\<close> to \<open>9\<close> only.
\<close>

datatype py_error = ValueError | ZeroDivisionError | TypeError | KeyError

definition ord :: "char \<Rightarrow> int" where
  "ord c = of_char c"

definition chr :: "int \<Rightarrow> char" where
  "chr n = char_of n"

definition is_AZ :: "char \<Rightarrow> bool" where
  "is_AZ c = (65 \<le> ord c \<and> ord c \<le> 90)"

definition is_az :: "char \<Rightarrow> bool" where
  "is_az c = (97 \<le> ord c \<and> ord c \<le> 122)"

definition is_decimal :: "char \<Rightarrow> bool" where
  "is_decimal c = (48 \<le> ord c \<and> ord c \<le> 57)"

definition isdigit :: "char \<Rightarrow> bool" where
  "isdigit c = (is_decimal c \<or> ord c = 178 \<or> ord c = 179 \<or> ord c = 185)"

definition isalpha :: "char \<Rightarrow> bool" where
  "isalpha c =
     (is_AZ c \<or> is_az c \<or> ord c = 170 \<or> ord c = 181 \<or> ord c = 186 \<or>
      (192 \<le> ord c \<and> ord c \<le> 214) \<or> (216 \<le> ord c \<and> ord c \<le> 246) \<or> 248 \<le> ord c)"

definition isalnum :: "char \<Rightarrow> bool" where
  "isalnum c = (isalpha c \<or> isdigit c \<or> (188 \<le> ord c \<and> ord c \<le> 190))"

definition isspace :: "char \<Rightarrow> bool" where
  "isspace c =
     (ord c = 32 \<or> (9 \<le> ord c \<and> ord c \<le> 13) \<or> (28 \<le> ord c \<and> ord c \<le> 31) \<or>
      ord c = 133 \<or> ord c = 160)"

text \<open>
  \<open>str.upper\<close> on ASCII text. (Outside ASCII it differs from Python's on the small letters
  of the Latin-1 supplement. The function names and cell names that the callers compare the
  result with are ASCII, and no upper-cased non-ASCII name equals one of them; statements
  about \<open>parse_address\<close> on arbitrary strings are stated for ASCII strings.)
\<close>

definition upper_char :: "char \<Rightarrow> char" where
  "upper_char c = (if is_az c then chr (ord c - 32) else c)"

definition upper :: "string \<Rightarrow> string" where
  "upper s = map upper_char s"

text \<open>\<open>str(n)\<close> and \<open>int(s)\<close> on decimal numerals.\<close>

function str_nat :: "nat \<Rightarrow> string" where
  "str_nat n = (if n < 10 then [chr (48 + int n)]
                else str_nat (n div 10) @ [chr (48 + int (n mod 10))])"
  by pat_completeness auto
termination
  by (relation "measure id") auto

declare str_nat.simps [simp del]

definition str_int :: "int \<Rightarrow> string" where
  "str_int i = (if i < 0 then CHR ''-'' # str_nat (nat (- i)) else str_nat (nat i))"

definition digits_value :: "string \<Rightarrow> int" where
  "digits_value s = fold (\<lambda>c r. r * 10 + (ord c - 48)) s 0"

definition strip :: "string \<Rightarrow> string" where
  "strip s = rev (dropWhile isspace (rev (dropWhile isspace s)))"

text \<open>
  The white space that \<open>int\<close> and \<open>float\<close> ignore around a numeral: of the characters
  below 256 that \<open>isspace\<close> holds of, all but U+001C to U+001F.
\<close>

definition is_numeral_space :: "char \<Rightarrow> bool" where
  "is_numeral_space c = (isspace c \<and> \<not> (28 \<le> ord c \<and> ord c \<le> 31))"

definition strip_numeral :: "string \<Rightarrow> string" where
  "strip_numeral s = rev (dropWhile is_numeral_space (rev (dropWhile is_numeral_space s)))"

text \<open>
  \<open>int(s)\<close>: surrounding whitespace is ignored, one sign is allowed, and the digits may
  be grouped by single underscores; anything else raises \<open>ValueError\<close>.
\<close>

fun digit_groups :: "string \<Rightarrow> bool" where
  "digit_groups [] = False"
| "digit_groups [c] = is_decimal c"
| "digit_groups (c # d # cs) =
     (is_decimal c \<and> (if d = CHR ''_'' then digit_groups cs else digit_groups (d # cs)))"

definition int_of_str :: "string \<Rightarrow> py_error + int" where
  "int_of_str s =
     (let t = strip_numeral s;
          neg = (t \<noteq> [] \<and> hd t = CHR ''-'');
          body = (if t \<noteq> [] \<and> (hd t = CHR ''-'' \<or> hd t = CHR ''+'') then tl t else t)
      in if digit_groups body
         then (let v = digits_value (filter is_decimal body) in Inr (if neg then - v else v))
         else Inl ValueError)"

section \<open>Address codec (model.py)\<close>

function col_to_letter_loop :: "int \<Rightarrow> string \<Rightarrow> string" where
  "col_to_letter_loop col result =
     (if col \<ge> 0
      then (let result' = chr (65 + col mod 26) # result;
                col' = col div 26 - 1
            in if col' < 0 then result' else col_to_letter_loop col' result')
      else result)"
  by pat_completeness auto
termination
  by (relation "measure (\<lambda>(col, result). nat col)") auto

declare col_to_letter_loop.simps [simp del]

definition col_to_letter :: "int \<Rightarrow> string" where
  "col_to_letter col = col_to_letter_loop col []"

definition letter_to_col :: "string \<Rightarrow> int" where
  "letter_to_col letter = fold (\<lambda>char result. result * 26 + (ord char - 64)) (upper letter) 0 - 1"

text \<open>
  \<open>re.match(r'^([A-Z]+)(\d+)$', s)\<close>: the two groups, when the string is one or more
  capitals followed by one or more digits. Python's \<open>$\<close> also matches just before a
  newline that ends the string.
\<close>

definition re_match_address :: "string \<Rightarrow> (string \<times> string) option" where
  "re_match_address s =
     (let body = (if s \<noteq> [] \<and> last s = CHR 0x0A then butlast s else s);
          col_str = takeWhile is_AZ body;
          row_str = dropWhile is_AZ body
      in if col_str \<noteq> [] \<and> row_str \<noteq> [] \<and> list_all is_decimal row_str
         then Some (col_str, row_str) else None)"

definition parse_address :: "string \<Rightarrow> py_error + (int \<times> int)" where
  "parse_address addr =
     (case re_match_address (upper addr) of
        None \<Rightarrow> Inl ValueError
      | Some (col_str, row_str) \<Rightarrow>
          (case int_of_str row_str of
             Inl e \<Rightarrow> Inl e
           | Inr n \<Rightarrow> Inr (n - 1, letter_to_col col_str)))"

definition address_to_string :: "int \<Rightarrow> int \<Rightarrow> string" where
  "address_to_string row col = col_to_letter col @ str_int (row + 1)"


definition letters_then_digits :: "string \<Rightarrow> bool" where
  "letters_then_digits s =
     (takeWhile is_AZ s \<noteq> [] \<and> dropWhile is_AZ s \<noteq> [] \<and> list_all is_decimal (dropWhile is_AZ s))"


text \<open>The bijective base-26 value of a column label (\<open>A\<close> is 1).\<close>

definition lval :: "string \<Rightarrow> int" where
  "lval s = fold (\<lambda>char result. result * 26 + (ord char - 64)) s 0"

section \<open>Tokenizer (formula.py)\<close>

text \<open>
  \<open>FormulaTokenizer\<close> keeps the formula text, a position and the list of tokens read so
  far. Each reader takes the text, the position and the tokens and returns the new position
  and tokens.
\<close>

datatype TokenType = NUMBER | STRING | CELL_REF | RANGE | FUNCTION | OPERATOR
  | LPAREN | RPAREN | COMMA | EOF

record Token =
  tok_type :: TokenType
  tok_value :: string
  tok_position :: nat

definition mk_token :: "TokenType \<Rightarrow> string \<Rightarrow> nat \<Rightarrow> Token" where
  "mk_token t v p = \<lparr>tok_type = t, tok_value = v, tok_position = p\<rparr>"

text \<open>\<open>s[a:b]\<close> for \<open>0 \<le> a\<close>, \<open>0 \<le> b\<close>; a loop \<open>while pos < len(f) and P(f[pos]): pos += 1\<close>.\<close>

definition slice :: "string \<Rightarrow> nat \<Rightarrow> nat \<Rightarrow> string" where
  "slice s a b = take (b - a) (drop a s)"

definition scan_while :: "(char \<Rightarrow> bool) \<Rightarrow> string \<Rightarrow> nat \<Rightarrow> nat" where
  "scan_while P f pos = pos + length (takeWhile P (drop pos f))"

definition skip_whitespace :: "string \<Rightarrow> nat \<Rightarrow> nat" where
  "skip_whitespace f pos = scan_while isspace f pos"

definition read_number :: "string \<Rightarrow> nat \<Rightarrow> Token list \<Rightarrow> nat \<times> Token list" where
  "read_number f pos tokens =
     (let start = pos;
          pos' = scan_while (\<lambda>c. isdigit c \<or> c = CHR ''.'') f pos;
          v = slice f start pos'
      in (pos', tokens @ [mk_token NUMBER v start]))"

definition read_string :: "string \<Rightarrow> nat \<Rightarrow> Token list \<Rightarrow> nat \<times> Token list" where
  "read_string f pos tokens =
     (let start = pos;
          pos1 = scan_while (\<lambda>c. c \<noteq> CHR 0x22) f (pos + 1);
          pos2 = (if pos1 < length f then pos1 + 1 else pos1);
          v = slice f (start + 1) (pos2 - 1)
      in (pos2, tokens @ [mk_token STRING v start]))"

definition is_cell_name :: "string \<Rightarrow> bool" where
  "is_cell_name v = (re_match_address v \<noteq> None)"

definition read_identifier :: "string \<Rightarrow> nat \<Rightarrow> Token list \<Rightarrow> nat \<times> Token list" where
  "read_identifier f pos tokens =
     (let start = pos;
          pos1 = scan_while isalnum f pos;
          v = slice f start pos1
      in if is_cell_name v
         then (if pos1 + 1 < length f \<and> f ! pos1 = CHR '':''
               then (let range_start = pos1 + 1;
                         pos2 = scan_while isalnum f range_start;
                         range_end = slice f range_start pos2
                     in if is_cell_name range_end
                        then (pos2, tokens @ [mk_token RANGE (v @ '':'' @ range_end) start])
                        else (range_start - 1, tokens @ [mk_token CELL_REF v start]))
               else (pos1, tokens @ [mk_token CELL_REF v start]))
         else (pos1, tokens @ [mk_token FUNCTION v start]))"

definition read_operator :: "string \<Rightarrow> nat \<Rightarrow> Token list \<Rightarrow> nat \<times> Token list" where
  "read_operator f pos tokens =
     (let start = pos; char = f ! pos
      in if char \<in> set ''<>=''
         then (if pos + 1 < length f \<and> f ! (pos + 1) = CHR ''=''
               then (pos + 2, tokens @ [mk_token OPERATOR (slice f start (pos + 2)) start])
               else (pos + 1, tokens @ [mk_token OPERATOR [char] start]))
         else (pos + 1, tokens @ [mk_token OPERATOR [char] start]))"

definition lex_step :: "string \<Rightarrow> nat \<Rightarrow> Token list \<Rightarrow> nat \<times> Token list" where
  "lex_step f pos tokens =
     (let char = f ! pos
      in if isdigit char \<or> char = CHR ''.'' then read_number f pos tokens
         else if char = CHR 0x22 then read_string f pos tokens
         else if isalpha char then read_identifier f pos tokens
         else if char \<in> set ''+-*/^=<>'' then read_operator f pos tokens
         else if char = CHR ''('' then (pos + 1, tokens @ [mk_token LPAREN [char] pos])
         else if char = CHR '')'' then (pos + 1, tokens @ [mk_token RPAREN [char] pos])
         else if char = CHR '','' then (pos + 1, tokens @ [mk_token COMMA [char] pos])
         else (pos + 1, tokens))"

text \<open>Every step of the main loop consumes at least one character, so the loop ends.\<close>

lemma scan_while_ge: "pos \<le> scan_while P f pos"
  by (simp add: scan_while_def)

lemma scan_while_gt: "pos < length f \<Longrightarrow> P (f ! pos) \<Longrightarrow> pos < scan_while P f pos"
  by (cases "drop pos f") (auto simp: scan_while_def hd_drop_conv_nth[symmetric])

lemma lex_step_advances: "pos < length f \<Longrightarrow> pos < fst (lex_step f pos tokens)"
proof -
  assume lt: "pos < length f"
  have n: "isdigit (f ! pos) \<or> f ! pos = CHR ''.'' \<Longrightarrow> pos < fst (read_number f pos tokens)"
    using scan_while_gt[OF lt, of "\<lambda>c. isdigit c \<or> c = CHR ''.''"] by (simp add: read_number_def Let_def)
  have s: "pos < fst (read_string f pos tokens)"
    using scan_while_ge[of "pos + 1" "\<lambda>c. c \<noteq> CHR 0x22" f] by (simp add: read_string_def Let_def)
  have i: "isalpha (f ! pos) \<Longrightarrow> pos < fst (read_identifier f pos tokens)"
    using scan_while_gt[OF lt, of isalnum] scan_while_ge[of "scan_while isalnum f pos + 1" isalnum f]
    by (auto simp: read_identifier_def Let_def isalnum_def)
  have p: "pos < fst (read_operator f pos tokens)"
    by (simp add: read_operator_def Let_def)
  show ?thesis using n s i p by (simp add: lex_step_def Let_def)
qed

function tokenize_loop :: "string \<Rightarrow> nat \<Rightarrow> Token list \<Rightarrow> nat \<times> Token list" where
  "tokenize_loop f pos tokens =
     (if pos < length f
      then (let pos1 = skip_whitespace f pos
            in if pos1 \<ge> length f then (pos1, tokens)
               else (case lex_step f pos1 tokens of (pos2, tokens2) \<Rightarrow> tokenize_loop f pos2 tokens2))
      else (pos, tokens))"
  by pat_completeness auto
termination
  apply (relation "measure (\<lambda>(f, pos, tokens). length f - pos)")
   apply simp
  subgoal for f pos tokens pos1 x pos2
    using lex_step_advances[of pos1 f tokens] scan_while_ge[of pos isspace f]
    by (auto simp: skip_whitespace_def case_prod_beta)
  done

declare tokenize_loop.simps [simp del]

text \<open>The constructor strips the text and drops one leading \<open>=\<close>.\<close>

definition tokenizer_init :: "string \<Rightarrow> string" where
  "tokenizer_init formula = (let f = strip formula in if f \<noteq> [] \<and> hd f = CHR ''='' then tl f else f)"

text \<open>\<open>tokenize\<close> on the text that the constructor stored.\<close>

definition tokenize_text :: "string \<Rightarrow> Token list" where
  "tokenize_text f = (case tokenize_loop f 0 [] of (pos, tokens) \<Rightarrow> tokens @ [mk_token EOF [] pos])"

definition tokenize :: "string \<Rightarrow> Token list" where
  "tokenize formula = tokenize_text (tokenizer_init formula)"

text \<open>
  A character that no rule of the tokenizer reads: not white space, not part of a number,
  a string, an identifier, a range or an operator, not a parenthesis or a comma. (A digit
  or a letter in the wider sense of \<open>isalnum\<close> can be part of an identifier, and a colon
  part of a range.)
\<close>

definition unknown_char :: "char \<Rightarrow> bool" where
  "unknown_char c =
     (\<not> isspace c \<and> \<not> isalnum c \<and> c \<noteq> CHR ''.'' \<and> c \<noteq> CHR 0x22 \<and> c \<noteq> CHR '':'' \<and>
      c \<notin> set ''+-*/^=<>'' \<and> c \<noteq> CHR ''('' \<and> c \<noteq> CHR '')'' \<and> c \<noteq> CHR '','')"

text \<open>
  Position \<open>i\<close> of a text lies inside a string literal when an odd number of double
  quotes precede it. \<open>blank_unknown\<close> replaces every unknown character outside the string
  literals by a space.
\<close>

definition in_string :: "string \<Rightarrow> nat \<Rightarrow> bool" where
  "in_string f i = odd (length (filter (\<lambda>c. c = CHR 0x22) (take i f)))"

definition blank_unknown :: "string \<Rightarrow> string" where
  "blank_unknown f =
     map (\<lambda>i. if unknown_char (f ! i) \<and> \<not> in_string f i then CHR '' '' else f ! i) [0..<length f]"

text \<open>The characters that the main loop passes over without producing a token.\<close>

definition inert :: "char \<Rightarrow> bool" where
  "inert c = (isspace c \<or> unknown_char c)"

section \<open>Syntax trees and the parser (formula.py)\<close>

datatype ASTNode =
    NumberNode real
  | StringNode string
  | CellRefNode int int
  | RangeNode "(int \<times> int) list"
  | BinaryOpNode ASTNode string ASTNode
  | UnaryOpNode string ASTNode
  | FunctionNode string "ASTNode list"

text \<open>
  Python floats are modelled as real numbers. \<open>float(s)\<close> is modelled on decimal
  literals: surrounding white space, one sign, an integer part, a fraction and an exponent,
  with single underscores between digits. The spellings of infinities and NaN, whose values
  are not real numbers, are not modelled (they raise \<open>ValueError\<close> here); the tokenizer
  never produces them in a number token.
\<close>

definition decimal_value :: "string \<Rightarrow> string \<Rightarrow> real" where
  "decimal_value ip fp = of_int (digits_value (ip @ fp)) / 10 ^ length fp"

definition mantissa_of_str :: "string \<Rightarrow> py_error + real" where
  "mantissa_of_str m =
     (let ip = takeWhile (\<lambda>c. c \<noteq> CHR ''.'') m;
          r = dropWhile (\<lambda>c. c \<noteq> CHR ''.'') m;
          fp = (if r = [] then [] else tl r)
      in if (ip = [] \<or> digit_groups ip) \<and> (fp = [] \<or> digit_groups fp) \<and> ip @ fp \<noteq> []
         then Inr (decimal_value (filter is_decimal ip) (filter is_decimal fp))
         else Inl ValueError)"

definition float_of_str :: "string \<Rightarrow> py_error + real" where
  "float_of_str s =
     (let t = strip_numeral s;
          neg = (t \<noteq> [] \<and> hd t = CHR ''-'');
          body = (if t \<noteq> [] \<and> (hd t = CHR ''-'' \<or> hd t = CHR ''+'') then tl t else t);
          m = takeWhile (\<lambda>c. c \<noteq> CHR ''e'' \<and> c \<noteq> CHR ''E'') body;
          x = dropWhile (\<lambda>c. c \<noteq> CHR ''e'' \<and> c \<noteq> CHR ''E'') body
      in case mantissa_of_str m of
           Inl e \<Rightarrow> Inl e
         | Inr v \<Rightarrow>
             (if x = [] then Inr (if neg then - v else v)
              else (let xs = tl x;
                        xneg = (xs \<noteq> [] \<and> hd xs = CHR ''-'');
                        xd = (if xs \<noteq> [] \<and> (hd xs = CHR ''-'' \<or> hd xs = CHR ''+'') then tl xs else xs)
                    in if digit_groups xd
                       then (let k = digits_value (filter is_decimal xd);
                                 w = (if xneg then v / 10 ^ nat k else v * 10 ^ nat k)
                             in Inr (if neg then - w else w))
                       else Inl ValueError)))"

definition split_colon :: "string \<Rightarrow> string \<times> string" where
  "split_colon s = (takeWhile (\<lambda>c. c \<noteq> CHR '':'') s, tl (dropWhile (\<lambda>c. c \<noteq> CHR '':'') s))"

definition parse_range :: "string \<Rightarrow> py_error + (int \<times> int) list" where
  "parse_range range_str =
     (if CHR '':'' \<notin> set range_str
      then (case parse_address range_str of Inl e \<Rightarrow> Inl e | Inr (row, col) \<Rightarrow> Inr [(row, col)])
      else (case split_colon range_str of (start_addr, end_addr) \<Rightarrow>
              (case parse_address start_addr of
                 Inl e \<Rightarrow> Inl e
               | Inr (start_row, start_col) \<Rightarrow>
                   (case parse_address end_addr of
                      Inl e \<Rightarrow> Inl e
                    | Inr (end_row, end_col) \<Rightarrow>
                        Inr (concat (map (\<lambda>row. map (\<lambda>col. (row, col))
                                               [min start_col end_col .. max start_col end_col])
                                         [min start_row end_row .. max start_row end_row]))))))"

text \<open>
  The parser is a recursive descent over the token list with a cursor. Its methods call each
  other recursively, and on a token list that does not end with \<open>EOF\<close> the recursion need
  not end (\<open>_advance\<close> stays on the last token), so each method takes a recursion budget;
  \<open>None\<close> means the budget ran out. A result is otherwise an exception (\<open>Inl\<close>) or a
  value (\<open>Inr\<close>). The methods below \<open>_parse_expression\<close> receive it as the parameter
  \<open>expr\<close>, which closes the recursion in \<open>parse_expression\<close>. The budget that
  \<open>parser_parse\<close> starts with is enough for every token list that ends with \<open>EOF\<close>, as the
  tokenizer's do (\<open>parse_formula_total\<close> below). The interpreter's own limit on the depth of
  recursion is not modelled.
\<close>

type_synonym 'a outcome = "(py_error + 'a) option"

definition returns :: "'a \<Rightarrow> 'a outcome" where
  "returns x = Some (Inr x)"

definition raises :: "py_error \<Rightarrow> 'a outcome" where
  "raises e = Some (Inl e)"

definition lift_result :: "py_error + 'a \<Rightarrow> 'a outcome" where
  "lift_result r = Some r"

definition and_then :: "'a outcome \<Rightarrow> ('a \<Rightarrow> 'b outcome) \<Rightarrow> 'b outcome" where
  "and_then m k = (case m of None \<Rightarrow> None | Some (Inl e) \<Rightarrow> Some (Inl e) | Some (Inr x) \<Rightarrow> k x)"

definition current_token :: "Token list \<Rightarrow> nat \<Rightarrow> Token" where
  "current_token tokens pos = (if pos < length tokens then tokens ! pos else mk_token EOF [] 0)"

definition advance :: "Token list \<Rightarrow> nat \<Rightarrow> nat" where
  "advance tokens pos = (if pos + 1 < length tokens then pos + 1 else pos)"

definition at_operator :: "Token list \<Rightarrow> nat \<Rightarrow> string list \<Rightarrow> bool" where
  "at_operator tokens pos ops =
     (tok_type (current_token tokens pos) = OPERATOR \<and> tok_value (current_token tokens pos) \<in> set ops)"

type_synonym expr_parser = "Token list \<Rightarrow> nat \<Rightarrow> (ASTNode \<times> nat) outcome"

fun arguments_loop :: "expr_parser \<Rightarrow> nat \<Rightarrow> Token list \<Rightarrow> ASTNode list \<Rightarrow> nat \<Rightarrow> (ASTNode list \<times> nat) outcome" where
  "arguments_loop expr 0 tokens args pos = None"
| "arguments_loop expr (Suc n) tokens args pos =
     (if tok_type (current_token tokens pos) = COMMA
      then and_then (expr tokens (advance tokens pos))
             (\<lambda>(arg, pos'). arguments_loop expr n tokens (args @ [arg]) pos')
      else returns (args, pos))"

definition parse_function :: "expr_parser \<Rightarrow> nat \<Rightarrow> Token list \<Rightarrow> nat \<Rightarrow> (ASTNode \<times> nat) outcome" where
  "parse_function expr n tokens pos =
     (let name = tok_value (current_token tokens pos);
          pos1 = advance tokens pos
      in if tok_type (current_token tokens pos1) \<noteq> LPAREN then raises ValueError
         else (let pos2 = advance tokens pos1
               in and_then
                    (if tok_type (current_token tokens pos2) \<noteq> RPAREN
                     then and_then (expr tokens pos2)
                            (\<lambda>(arg, pos3). arguments_loop expr n tokens [arg] pos3)
                     else returns ([], pos2))
                    (\<lambda>(args, pos4).
                       if tok_type (current_token tokens pos4) \<noteq> RPAREN then raises ValueError
                       else returns (FunctionNode name args, advance tokens pos4))))"

definition parse_primary :: "expr_parser \<Rightarrow> nat \<Rightarrow> Token list \<Rightarrow> nat \<Rightarrow> (ASTNode \<times> nat) outcome" where
  "parse_primary expr n tokens pos =
     (let token = current_token tokens pos
      in case tok_type token of
           NUMBER \<Rightarrow>
             and_then (lift_result (float_of_str (tok_value token)))
               (\<lambda>v. returns (NumberNode v, advance tokens pos))
         | STRING \<Rightarrow> returns (StringNode (tok_value token), advance tokens pos)
         | CELL_REF \<Rightarrow>
             and_then (lift_result (parse_address (tok_value token)))
               (\<lambda>(row, col). returns (CellRefNode row col, advance tokens pos))
         | RANGE \<Rightarrow>
             and_then (lift_result (parse_range (tok_value token)))
               (\<lambda>cells. returns (RangeNode cells, advance tokens pos))
         | FUNCTION \<Rightarrow> parse_function expr n tokens pos
         | LPAREN \<Rightarrow>
             and_then (expr tokens (advance tokens pos))
               (\<lambda>(node, pos').
                  returns (node, if tok_type (current_token tokens pos') = RPAREN
                                 then advance tokens pos' else pos'))
         | _ \<Rightarrow> raises ValueError)"

fun parse_unary :: "expr_parser \<Rightarrow> nat \<Rightarrow> Token list \<Rightarrow> nat \<Rightarrow> (ASTNode \<times> nat) outcome" where
  "parse_unary expr 0 tokens pos = None"
| "parse_unary expr (Suc n) tokens pos =
     (if at_operator tokens pos [''+'', ''-'']
      then (let operator = tok_value (current_token tokens pos)
            in and_then (parse_unary expr n tokens (advance tokens pos))
                 (\<lambda>(operand, pos'). returns (UnaryOpNode operator operand, pos')))
      else parse_primary expr n tokens pos)"

fun parse_power :: "expr_parser \<Rightarrow> nat \<Rightarrow> Token list \<Rightarrow> nat \<Rightarrow> (ASTNode \<times> nat) outcome" where
  "parse_power expr 0 tokens pos = None"
| "parse_power expr (Suc n) tokens pos =
     and_then (parse_unary expr n tokens pos)
       (\<lambda>(node, pos').
          if at_operator tokens pos' [''^'']
          then (let operator = tok_value (current_token tokens pos')
                in and_then (parse_power expr n tokens (advance tokens pos'))
                     (\<lambda>(right, pos''). returns (BinaryOpNode node operator right, pos'')))
          else returns (node, pos'))"

fun multiplication_loop :: "expr_parser \<Rightarrow> nat \<Rightarrow> Token list \<Rightarrow> ASTNode \<Rightarrow> nat \<Rightarrow> (ASTNode \<times> nat) outcome" where
  "multiplication_loop expr 0 tokens node pos = None"
| "multiplication_loop expr (Suc n) tokens node pos =
     (if at_operator tokens pos [''*'', ''/'']
      then (let operator = tok_value (current_token tokens pos)
            in and_then (parse_power expr n tokens (advance tokens pos))
                 (\<lambda>(right, pos'). multiplication_loop expr n tokens (BinaryOpNode node operator right) pos'))
      else returns (node, pos))"

definition parse_multiplication :: "expr_parser \<Rightarrow> nat \<Rightarrow> Token list \<Rightarrow> nat \<Rightarrow> (ASTNode \<times> nat) outcome" where
  "parse_multiplication expr n tokens pos =
     and_then (parse_power expr n tokens pos) (\<lambda>(node, pos'). multiplication_loop expr n tokens node pos')"

fun addition_loop :: "expr_parser \<Rightarrow> nat \<Rightarrow> Token list \<Rightarrow> ASTNode \<Rightarrow> nat \<Rightarrow> (ASTNode \<times> nat) outcome" where
  "addition_loop expr 0 tokens node pos = None"
| "addition_loop expr (Suc n) tokens node pos =
     (if at_operator tokens pos [''+'', ''-'']
      then (let operator = tok_value (current_token tokens pos)
            in and_then (parse_multiplication expr n tokens (advance tokens pos))
                 (\<lambda>(right, pos'). addition_loop expr n tokens (BinaryOpNode node operator right) pos'))
      else returns (node, pos))"

definition parse_addition :: "expr_parser \<Rightarrow> nat \<Rightarrow> Token list \<Rightarrow> nat \<Rightarrow> (ASTNode \<times> nat) outcome" where
  "parse_addition expr n tokens pos =
     and_then (parse_multiplication expr n tokens pos) (\<lambda>(node, pos'). addition_loop expr n tokens node pos')"

fun comparison_loop :: "expr_parser \<Rightarrow> nat \<Rightarrow> Token list \<Rightarrow> ASTNode \<Rightarrow> nat \<Rightarrow> (ASTNode \<times> nat) outcome" where
  "comparison_loop expr 0 tokens node pos = None"
| "comparison_loop expr (Suc n) tokens node pos =
     (if at_operator tokens pos [''='', ''<>'', ''<'', ''<='', ''>'', ''>='']
      then (let operator = tok_value (current_token tokens pos)
            in and_then (parse_addition expr n tokens (advance tokens pos))
                 (\<lambda>(right, pos'). comparison_loop expr n tokens (BinaryOpNode node operator right) pos'))
      else returns (node, pos))"

definition parse_comparison :: "expr_parser \<Rightarrow> nat \<Rightarrow> Token list \<Rightarrow> nat \<Rightarrow> (ASTNode \<times> nat) outcome" where
  "parse_comparison expr n tokens pos =
     and_then (parse_addition expr n tokens pos) (\<lambda>(node, pos'). comparison_loop expr n tokens node pos')"

primrec parse_expression :: "nat \<Rightarrow> Token list \<Rightarrow> nat \<Rightarrow> (ASTNode \<times> nat) outcome" where
  "parse_expression 0 = (\<lambda>tokens pos. None)"
| "parse_expression (Suc n) = parse_comparison (parse_expression n) n"

definition parse_fuel :: "Token list \<Rightarrow> nat" where
  "parse_fuel tokens = length tokens + 4"

definition parser_parse :: "Token list \<Rightarrow> ASTNode outcome" where
  "parser_parse tokens =
     and_then (parse_expression (parse_fuel tokens) tokens 0) (\<lambda>(node, pos). returns node)"

definition parse_formula :: "string \<Rightarrow> ASTNode outcome" where
  "parse_formula formula = parser_parse (tokenize formula)"

text \<open>
  The facts used to show that the budget suffices: the token list ends with \<open>EOF\<close>; a
  result is an exception or a value with a cursor from \<open>lo\<close> on and inside the list; and
  the parameter \<open>expr\<close> gives such a result, past its starting cursor, wherever fewer than
  \<open>r0\<close> tokens remain.
\<close>

definition eof_terminated :: "Token list \<Rightarrow> bool" where
  "eof_terminated ts = (ts \<noteq> [] \<and> tok_type (last ts) = EOF)"

definition res_ok :: "Token list \<Rightarrow> nat \<Rightarrow> ('a \<times> nat) outcome \<Rightarrow> bool" where
  "res_ok ts lo r =
     (case r of None \<Rightarrow> False | Some (Inl e) \<Rightarrow> True | Some (Inr (x, p)) \<Rightarrow> lo \<le> p \<and> p < length ts)"

definition expr_ok :: "Token list \<Rightarrow> expr_parser \<Rightarrow> nat \<Rightarrow> bool" where
  "expr_ok ts expr r0 =
     (\<forall>pos. pos < length ts \<and> length ts - pos < r0 \<longrightarrow> res_ok ts (Suc pos) (expr ts pos))"

section \<open>Values and the evaluator (formula.py)\<close>

text \<open>
  The values a cell or an evaluation can hold. Floats are real numbers here, so overflow
  and rounding of binary floating point are not modelled; on the small integers of the
  scenarios below Python's arithmetic is exact and agrees with this model.
\<close>

datatype pyval =
    VNone
  | VBool bool
  | VInt int
  | VFloat real
  | VComplex complex
  | VStr string
  | VList "pyval list"

text \<open>\<open>isinstance(v, str) and v.startswith('#')\<close>: the test for an error sentinel.\<close>

fun is_error_value :: "pyval \<Rightarrow> bool" where
  "is_error_value (VStr s) = (s \<noteq> [] \<and> hd s = CHR ''#'')"
| "is_error_value _ = False"

text \<open>
  Python's \<open>==\<close>: booleans, integers, floats and complex numbers compare by numeric value,
  lists element by element, everything else by type and content.
\<close>

fun canon :: "pyval \<Rightarrow> pyval" where
  "canon (VBool b) = VComplex (if b then 1 else 0)"
| "canon (VInt i) = VComplex (of_int i)"
| "canon (VFloat x) = VComplex (of_real x)"
| "canon (VList xs) = VList (map canon xs)"
| "canon v = v"

definition py_eq :: "pyval \<Rightarrow> pyval \<Rightarrow> bool" where
  "py_eq a b = (canon a = canon b)"

definition bind_err :: "py_error + 'a \<Rightarrow> ('a \<Rightarrow> py_error + 'b) \<Rightarrow> py_error + 'b" where
  "bind_err m k = (case m of Inl e \<Rightarrow> Inl e | Inr x \<Rightarrow> k x)"

fun to_number :: "pyval \<Rightarrow> py_error + real" where
  "to_number (VInt i) = Inr (of_int i)"
| "to_number (VFloat x) = Inr x"
| "to_number (VBool b) = Inr (if b then 1 else 0)"
| "to_number (VStr s) = (if s = [] then Inr 0 else float_of_str s)"
| "to_number _ = Inl ValueError"

text \<open>\<open>s.replace('.', '').replace('-', '').isdigit()\<close>\<close>

definition is_numeric_text :: "string \<Rightarrow> bool" where
  "is_numeric_text s =
     (let t = filter (\<lambda>c. c \<noteq> CHR ''-'') (filter (\<lambda>c. c \<noteq> CHR ''.'') s)
      in t \<noteq> [] \<and> list_all isdigit t)"

definition is_integral :: "real \<Rightarrow> bool" where
  "is_integral y = (of_int \<lfloor>y\<rfloor> = y)"

text \<open>\<open>x ** y\<close> on floats.\<close>

definition py_pow :: "real \<Rightarrow> real \<Rightarrow> py_error + pyval" where
  "py_pow x y =
     (if y = 0 then Inr (VFloat 1)
      else if x = 0 then (if y < 0 then Inl ZeroDivisionError else Inr (VFloat 0))
      else if x < 0 \<and> \<not> is_integral y then Inr (VComplex (of_real x powr of_real y))
      else if is_integral y then Inr (VFloat (x powi \<lfloor>y\<rfloor>))
      else Inr (VFloat (x powr y)))"

text \<open>\<open>round(x, d)\<close> on a float: to the nearest multiple of \<open>10 ** -d\<close>, ties to even.\<close>

definition round_half_even :: "real \<Rightarrow> int" where
  "round_half_even y =
     (let f = \<lfloor>y\<rfloor>; r = y - of_int f
      in if r < 1 / 2 then f else if 1 / 2 < r then f + 1 else if even f then f else f + 1)"

definition py_round :: "real \<Rightarrow> int \<Rightarrow> real" where
  "py_round x d = of_int (round_half_even (x * 10 powi d)) / 10 powi d"

definition int_of_float :: "real \<Rightarrow> int" where
  "int_of_float y = (if 0 \<le> y then \<lfloor>y\<rfloor> else \<lceil>y\<rceil>)"

text \<open>
  \<open>str(v)\<close>, used by \<open>CONCAT\<close>. Exact on strings, booleans, \<open>None\<close>, integers and
  integer-valued floats below \<open>1e16\<close>; a float with a fraction is rendered by its first 17
  decimals, which is not claimed to be CPython's shortest representation, and a string
  inside a list is quoted without escapes.
\<close>

fun frac_digits :: "nat \<Rightarrow> real \<Rightarrow> string" where
  "frac_digits 0 r = []"
| "frac_digits (Suc k) r =
     (if r = 0 then []
      else (let d = \<lfloor>r * 10\<rfloor> in chr (48 + d) # frac_digits k (r * 10 - of_int d)))"

definition str_float :: "real \<Rightarrow> string" where
  "str_float x =
     (if is_integral x then str_int \<lfloor>x\<rfloor> @ ''.0''
      else (if x < 0 then ''-'' else []) @ str_int \<lfloor>\<bar>x\<bar>\<rfloor> @ ''.'' @ frac_digits 17 (\<bar>x\<bar> - of_int \<lfloor>\<bar>x\<bar>\<rfloor>))"

fun join :: "string \<Rightarrow> string list \<Rightarrow> string" where
  "join sep [] = []"
| "join sep [x] = x"
| "join sep (x # y # ys) = x @ sep @ join sep (y # ys)"

fun py_repr :: "pyval \<Rightarrow> string" where
  "py_repr VNone = ''None''"
| "py_repr (VBool b) = (if b then ''True'' else ''False'')"
| "py_repr (VInt i) = str_int i"
| "py_repr (VFloat x) = str_float x"
| "py_repr (VComplex z) = ''('' @ str_float (Re z) @ ''+'' @ str_float (Im z) @ ''j)''"
| "py_repr (VStr s) = [CHR 0x27] @ s @ [CHR 0x27]"
| "py_repr (VList xs) = ''['' @ join '', '' (map py_repr xs) @ '']''"

definition py_str :: "pyval \<Rightarrow> string" where
  "py_str v = (case v of VStr s \<Rightarrow> s | _ \<Rightarrow> py_repr v)"

subsection \<open>Built-in functions\<close>

definition flatten_ranges :: "pyval list \<Rightarrow> pyval list" where
  "flatten_ranges args = concat (map (\<lambda>arg. case arg of VList xs \<Rightarrow> xs | _ \<Rightarrow> [arg]) args)"

text \<open>\<open>[self._to_number(v) for v in values if v != ""]\<close>; the first failing conversion raises.\<close>

fun numeric_values :: "pyval list \<Rightarrow> py_error + real list" where
  "numeric_values [] = Inr []"
| "numeric_values (v # vs) =
     (if v \<noteq> VStr []
      then bind_err (to_number v) (\<lambda>x. bind_err (numeric_values vs) (\<lambda>xs. Inr (x # xs)))
      else numeric_values vs)"

fun sum_loop :: "pyval list \<Rightarrow> real \<Rightarrow> py_error + real" where
  "sum_loop [] tot = Inr tot"
| "sum_loop (v # vs) tot =
     (if v \<noteq> VStr []
      then bind_err (to_number v) (\<lambda>x. sum_loop vs (tot + x))
      else sum_loop vs tot)"

definition fn_sum :: "pyval list \<Rightarrow> py_error + pyval" where
  "fn_sum args = bind_err (sum_loop (flatten_ranges args) 0) (\<lambda>tot. Inr (VFloat tot))"

definition fn_average :: "pyval list \<Rightarrow> py_error + pyval" where
  "fn_average args =
     bind_err (numeric_values (flatten_ranges args))
       (\<lambda>xs. if xs = [] then Inr (VStr ''#DIV/0!'')
              else Inr (VFloat (sum_list xs / of_nat (length xs))))"

definition fn_min :: "pyval list \<Rightarrow> py_error + pyval" where
  "fn_min args =
     bind_err (numeric_values (flatten_ranges args))
       (\<lambda>xs. if xs = [] then Inr (VStr ''#VALUE!'') else Inr (VFloat (fold min (tl xs) (hd xs))))"

definition fn_max :: "pyval list \<Rightarrow> py_error + pyval" where
  "fn_max args =
     bind_err (numeric_values (flatten_ranges args))
       (\<lambda>xs. if xs = [] then Inr (VStr ''#VALUE!'') else Inr (VFloat (fold max (tl xs) (hd xs))))"

definition fn_count :: "pyval list \<Rightarrow> py_error + pyval" where
  "fn_count args = Inr (VInt (int (length (filter (\<lambda>v. v \<noteq> VStr []) (flatten_ranges args)))))"

definition fn_if :: "pyval list \<Rightarrow> py_error + pyval" where
  "fn_if args =
     (if length args < 2 then Inr (VStr ''#VALUE!'')
      else (let condition = args ! 0;
                true_value = args ! 1;
                false_value = (if length args > 2 then args ! 2 else VStr [])
            in case condition of
                 VBool b \<Rightarrow> Inr (if b then true_value else false_value)
               | _ \<Rightarrow> bind_err (to_number condition)
                        (\<lambda>x. Inr (if x \<noteq> 0 then true_value else false_value))))"

definition fn_abs :: "pyval list \<Rightarrow> py_error + pyval" where
  "fn_abs args =
     (if length args \<noteq> 1 then Inr (VStr ''#VALUE!'')
      else bind_err (to_number (args ! 0)) (\<lambda>x. Inr (VFloat \<bar>x\<bar>)))"

definition fn_round :: "pyval list \<Rightarrow> py_error + pyval" where
  "fn_round args =
     (if length args < 1 \<or> length args > 2 then Inr (VStr ''#VALUE!'')
      else bind_err (to_number (args ! 0))
             (\<lambda>number.
                bind_err (if length args > 1
                          then bind_err (to_number (args ! 1)) (\<lambda>d. Inr (int_of_float d))
                          else Inr 0)
                  (\<lambda>digits. Inr (VFloat (py_round number digits)))))"

definition fn_concat :: "pyval list \<Rightarrow> py_error + pyval" where
  "fn_concat args = Inr (VStr (concat (map py_str args)))"

definition function_table :: "(string \<times> (pyval list \<Rightarrow> py_error + pyval)) list" where
  "function_table =
     [(''SUM'', fn_sum), (''AVERAGE'', fn_average), (''MIN'', fn_min), (''MAX'', fn_max),
      (''COUNT'', fn_count), (''IF'', fn_if), (''ABS'', fn_abs), (''ROUND'', fn_round),
      (''CONCAT'', fn_concat)]"

subsection \<open>The evaluator\<close>

type_synonym cell_getter = "int \<Rightarrow> int \<Rightarrow> py_error + pyval"

definition eval_cell_ref :: "cell_getter \<Rightarrow> int \<Rightarrow> int \<Rightarrow> pyval" where
  "eval_cell_ref get_cell_value row col =
     (case get_cell_value row col of
        Inl e \<Rightarrow> VStr ''#REF!''
      | Inr v \<Rightarrow>
          (case v of
             VStr s \<Rightarrow>
               (if is_numeric_text s
                then (case to_number v of Inl e \<Rightarrow> VStr ''#REF!'' | Inr x \<Rightarrow> VFloat x)
                else v)
           | _ \<Rightarrow> v))"

definition eval_range :: "cell_getter \<Rightarrow> (int \<times> int) list \<Rightarrow> pyval" where
  "eval_range get_cell_value cells =
     VList (concat (map (\<lambda>(row, col).
                           case get_cell_value row col of
                             Inl e \<Rightarrow> []
                           | Inr v \<Rightarrow> (if v \<noteq> VStr [] then [v] else []))
                        cells))"

definition arith :: "(real \<Rightarrow> real \<Rightarrow> pyval) \<Rightarrow> pyval \<Rightarrow> pyval \<Rightarrow> py_error + pyval" where
  "arith f left right =
     bind_err (to_number left) (\<lambda>l. bind_err (to_number right) (\<lambda>r. Inr (f l r)))"

definition binary_op :: "string \<Rightarrow> pyval \<Rightarrow> pyval \<Rightarrow> py_error + pyval" where
  "binary_op op left right =
     (if is_error_value left then Inr left
      else if is_error_value right then Inr right
      else if op = ''+'' then arith (\<lambda>l r. VFloat (l + r)) left right
      else if op = ''-'' then arith (\<lambda>l r. VFloat (l - r)) left right
      else if op = ''*'' then arith (\<lambda>l r. VFloat (l * r)) left right
      else if op = ''/'' then
        bind_err (to_number right)
          (\<lambda>right_num. if right_num = 0 then Inl ZeroDivisionError
                        else bind_err (to_number left) (\<lambda>l. Inr (VFloat (l / right_num))))
      else if op = ''^'' then
        bind_err (to_number left) (\<lambda>l. bind_err (to_number right) (\<lambda>r. py_pow l r))
      else if op = ''='' then Inr (VBool (py_eq left right))
      else if op = ''<>'' then Inr (VBool (\<not> py_eq left right))
      else if op = ''<'' then arith (\<lambda>l r. VBool (l < r)) left right
      else if op = ''<='' then arith (\<lambda>l r. VBool (l \<le> r)) left right
      else if op = ''>'' then arith (\<lambda>l r. VBool (l > r)) left right
      else if op = ''>='' then arith (\<lambda>l r. VBool (l \<ge> r)) left right
      else Inr (VStr ''#ERROR!''))"

definition unary_op :: "string \<Rightarrow> pyval \<Rightarrow> py_error + pyval" where
  "unary_op op operand =
     (if op = ''+'' then bind_err (to_number operand) (\<lambda>x. Inr (VFloat x))
      else if op = ''-'' then bind_err (to_number operand) (\<lambda>x. Inr (VFloat (- x)))
      else Inr (VStr ''#ERROR!''))"

text \<open>
  The part of \<open>_evaluate_function\<close> after the arguments are evaluated: the first argument
  that is an error sentinel is returned, otherwise the function is called.
\<close>

definition apply_function :: "string \<Rightarrow> pyval list \<Rightarrow> py_error + pyval" where
  "apply_function func_name args =
     (case map_of function_table func_name of
        None \<Rightarrow> Inr (VStr ''#NAME?'')
      | Some f \<Rightarrow>
          (case find is_error_value args of
             Some arg \<Rightarrow> Inr arg
           | None \<Rightarrow> f args))"

fun evaluate_node :: "cell_getter \<Rightarrow> ASTNode \<Rightarrow> py_error + pyval"
  and evaluate_args :: "cell_getter \<Rightarrow> ASTNode list \<Rightarrow> py_error + pyval list"
where
  "evaluate_node g (NumberNode v) = Inr (VFloat v)"
| "evaluate_node g (StringNode s) = Inr (VStr s)"
| "evaluate_node g (CellRefNode row col) = Inr (eval_cell_ref g row col)"
| "evaluate_node g (RangeNode cells) = Inr (eval_range g cells)"
| "evaluate_node g (BinaryOpNode l op r) =
     bind_err (evaluate_node g l)
       (\<lambda>left. bind_err (evaluate_node g r) (\<lambda>right. binary_op op left right))"
| "evaluate_node g (UnaryOpNode op x) =
     bind_err (evaluate_node g x) (\<lambda>operand. unary_op op operand)"
| "evaluate_node g (FunctionNode name args) =
     (let func_name = upper name
      in if map_of function_table func_name = None then Inr (VStr ''#NAME?'')
         else bind_err (evaluate_args g args) (\<lambda>vs. apply_function func_name vs))"
| "evaluate_args g [] = Inr []"
| "evaluate_args g (a # as) =
     bind_err (evaluate_node g a) (\<lambda>v. bind_err (evaluate_args g as) (\<lambda>vs. Inr (v # vs)))"

definition evaluate :: "cell_getter \<Rightarrow> ASTNode \<Rightarrow> pyval" where
  "evaluate g node =
     (case evaluate_node g node of
        Inr v \<Rightarrow> v
      | Inl ZeroDivisionError \<Rightarrow> VStr ''#DIV/0!''
      | Inl ValueError \<Rightarrow> VStr ''#VALUE!''
      | Inl _ \<Rightarrow> VStr ''#ERROR!'')"

definition evaluate_formula :: "string \<Rightarrow> cell_getter \<Rightarrow> pyval option" where
  "evaluate_formula formula g =
     (case parse_formula formula of
        None \<Rightarrow> None
      | Some (Inl e) \<Rightarrow> Some (VStr ''#ERROR!'')
      | Some (Inr ast) \<Rightarrow> Some (evaluate g ast))"

section \<open>Cells, the sheet and the model (model.py)\<close>

text \<open>
  A Python \<open>dict\<close> is an association list in insertion order: assigning to a present key
  keeps its place, assigning to a new key appends it (\<open>AList.update\<close>), \<open>del\<close> removes the
  entry (\<open>AList.delete\<close>). A Python \<open>set\<close> is a list without duplicates; the order in
  which Python iterates over a set is not fixed by the language, and the model iterates in
  insertion order.
\<close>

type_synonym addr = "int \<times> int"

definition set_add :: "'a \<Rightarrow> 'a list \<Rightarrow> 'a list" where
  "set_add x xs = (if x \<in> set xs then xs else xs @ [x])"

definition set_update :: "'a list \<Rightarrow> 'a list \<Rightarrow> 'a list" where
  "set_update xs ys = fold set_add ys xs"

record Cell =
  cell_raw :: string
  cell_value :: pyval
  cell_format :: "(string \<times> pyval) list"
  cell_error :: "string option"

text \<open>\<open>Cell(raw, value, format_dict)\<close>; \<open>Cell()\<close> is \<open>new_cell [] (VStr []) None\<close>.\<close>

definition new_cell :: "string \<Rightarrow> pyval \<Rightarrow> (string \<times> pyval) list option \<Rightarrow> Cell" where
  "new_cell raw v format_dict =
     \<lparr>cell_raw = raw, cell_value = v,
      cell_format = (case format_dict of None \<Rightarrow> [] | Some d \<Rightarrow> d),
      cell_error = None\<rparr>"

definition empty_cell :: Cell where
  "empty_cell = new_cell [] (VStr []) None"

definition is_formula :: "Cell \<Rightarrow> bool" where
  "is_formula cell = (cell_raw cell \<noteq> [] \<and> hd (cell_raw cell) = CHR ''='')"

record Sheet =
  cells :: "(addr \<times> Cell) list"
  sheet_name :: string
  max_row :: int
  max_col :: int

definition new_sheet :: Sheet where
  "new_sheet = \<lparr>cells = [], sheet_name = ''Sheet1'', max_row = 0, max_col = 0\<rparr>"

text \<open>\<open>Sheet.get_cell\<close> returns the cell and the sheet, in which the cell now exists.\<close>

definition get_cell :: "Sheet \<Rightarrow> int \<Rightarrow> int \<Rightarrow> Cell \<times> Sheet" where
  "get_cell sheet row col =
     (case map_of (cells sheet) (row, col) of
        None \<Rightarrow> (empty_cell, sheet\<lparr>cells := AList.update (row, col) empty_cell (cells sheet)\<rparr>)
      | Some cell \<Rightarrow> (cell, sheet))"

text \<open>\<open>Sheet.set_cell\<close>; the argument \<open>VNone\<close> for \<open>value\<close> stands for Python's \<open>None\<close>.\<close>

definition set_cell :: "Sheet \<Rightarrow> int \<Rightarrow> int \<Rightarrow> string \<Rightarrow> pyval \<Rightarrow> (string \<times> pyval) list option \<Rightarrow> Sheet" where
  "set_cell sheet row col raw v format_dict =
     (let cell = new_cell raw (if v \<noteq> VNone then v else VStr raw) format_dict
      in sheet\<lparr>cells := AList.update (row, col) cell (cells sheet),
               max_row := max (max_row sheet) row,
               max_col := max (max_col sheet) col\<rparr>)"

definition delete_cell :: "Sheet \<Rightarrow> int \<Rightarrow> int \<Rightarrow> Sheet" where
  "delete_cell sheet row col =
     (if map_of (cells sheet) (row, col) \<noteq> None
      then sheet\<lparr>cells := AList.delete (row, col) (cells sheet)\<rparr>
      else sheet)"

text \<open>Writing a field of the cell object stored at an address.\<close>

definition modify_cell :: "Sheet \<Rightarrow> addr \<Rightarrow> (Cell \<Rightarrow> Cell) \<Rightarrow> Sheet" where
  "modify_cell sheet pos f =
     (case map_of (cells sheet) pos of
        None \<Rightarrow> sheet
      | Some cell \<Rightarrow> sheet\<lparr>cells := AList.update pos (f cell) (cells sheet)\<rparr>)"

datatype event = cell_changed int int | structure_changed | model_loaded

text \<open>
  \<open>SpreadsheetModel\<close>. The observers are callbacks of the user interface; the model
  records the notifications they receive.
\<close>

record SpreadsheetModel =
  sheet :: Sheet
  filename :: "string option"
  modified :: bool
  notified :: "event list"

definition new_model :: SpreadsheetModel where
  "new_model = \<lparr>sheet = new_sheet, filename = None, modified = False, notified = []\<rparr>"

definition notify_observers :: "SpreadsheetModel \<Rightarrow> event \<Rightarrow> SpreadsheetModel" where
  "notify_observers m e = m\<lparr>notified := notified m @ [e]\<rparr>"

definition set_cell_raw :: "SpreadsheetModel \<Rightarrow> int \<Rightarrow> int \<Rightarrow> string \<Rightarrow> SpreadsheetModel" where
  "set_cell_raw m row col raw =
     notify_observers (m\<lparr>sheet := set_cell (sheet m) row col raw VNone None, modified := True\<rparr>)
       (cell_changed row col)"

section \<open>Dependency graph (engine.py)\<close>

text \<open>
  \<open>dependents\<close> and \<open>dependencies\<close> are \<open>defaultdict(set)\<close>: a missing key reads as the
  empty set. (Reading a missing key also stores it with an empty set, which no operation
  can observe; the model stores a key only when a set is written.)
\<close>

record DependencyGraph =
  dependents :: "(addr \<times> addr list) list"
  dependencies :: "(addr \<times> addr list) list"
  ast_cache :: "(addr \<times> ASTNode) list"

definition new_graph :: DependencyGraph where
  "new_graph = \<lparr>dependents = [], dependencies = [], ast_cache = []\<rparr>"

definition lookup_set :: "(addr \<times> addr list) list \<Rightarrow> addr \<Rightarrow> addr list" where
  "lookup_set d k = (case map_of d k of None \<Rightarrow> [] | Some s \<Rightarrow> s)"

definition clear_dependencies :: "DependencyGraph \<Rightarrow> addr \<Rightarrow> DependencyGraph" where
  "clear_dependencies g cell =
     (let dependents' =
            fold (\<lambda>dep d. AList.update dep (removeAll cell (lookup_set d dep)) d)
                 (lookup_set (dependencies g) cell) (dependents g)
      in g\<lparr>dependents := dependents',
            dependencies := AList.update cell [] (dependencies g),
            ast_cache := AList.delete cell (ast_cache g)\<rparr>)"

definition add_dependency :: "DependencyGraph \<Rightarrow> addr \<Rightarrow> addr \<Rightarrow> DependencyGraph" where
  "add_dependency g dependent_cell dependency =
     g\<lparr>dependencies :=
          AList.update dependent_cell (set_add dependency (lookup_set (dependencies g) dependent_cell))
            (dependencies g),
       dependents :=
          AList.update dependency (set_add dependent_cell (lookup_set (dependents g) dependency))
            (dependents g)\<rparr>"

definition get_dependencies :: "DependencyGraph \<Rightarrow> addr \<Rightarrow> addr list" where
  "get_dependencies g cell = lookup_set (dependencies g) cell"

definition get_dependents :: "DependencyGraph \<Rightarrow> addr \<Rightarrow> addr list" where
  "get_dependents g cell = lookup_set (dependents g) cell"

text \<open>
  The two maps are consistent when they hold the same edges. The graph states that can
  arise are those built from the empty graph by the operations of the class and by
  stores into the cache of syntax trees.
\<close>

definition graph_consistent :: "DependencyGraph \<Rightarrow> bool" where
  "graph_consistent g =
     (\<forall>c d. (d \<in> set (get_dependencies g c)) = (c \<in> set (get_dependents g d)))"

inductive reachable_graph :: "DependencyGraph \<Rightarrow> bool" where
  reach_new: "reachable_graph new_graph"
| reach_clear: "reachable_graph g \<Longrightarrow> reachable_graph (clear_dependencies g cell)"
| reach_add: "reachable_graph g \<Longrightarrow> reachable_graph (add_dependency g a b)"
| reach_cache: "reachable_graph g \<Longrightarrow> reachable_graph (g\<lparr>ast_cache := c\<rparr>)"

subsection \<open>Cycle detection\<close>

record dfs_state =
  visited :: "addr list"
  rec_stack :: "addr list"
  path :: "addr list"

text \<open>
  The nested function \<open>dfs\<close> of \<open>find_cycles\<close> with its loop over the dependents. It
  returns the cycle (\<open>Some\<close>) or \<open>False\<close> (\<open>None\<close>) and the state; the outer \<open>None\<close> means
  that the recursion budget ran out.
\<close>

fun dfs :: "nat \<Rightarrow> DependencyGraph \<Rightarrow> addr \<Rightarrow> dfs_state \<Rightarrow> (addr list option \<times> dfs_state) option"
  and dfs_loop :: "nat \<Rightarrow> DependencyGraph \<Rightarrow> addr list \<Rightarrow> dfs_state \<Rightarrow> (addr list option \<times> dfs_state) option"
where
  "dfs 0 g cell st = None"
| "dfs (Suc n) g cell st =
     (if cell \<in> set (rec_stack st) then Some (Some (dropWhile (\<lambda>c. c \<noteq> cell) (path st)), st)
      else if cell \<in> set (visited st) then Some (None, st)
      else (case dfs_loop n g (lookup_set (dependents g) cell)
                   (st\<lparr>visited := set_add cell (visited st),
                       rec_stack := set_add cell (rec_stack st),
                       path := path st @ [cell]\<rparr>) of
              None \<Rightarrow> None
            | Some (Some cycle, st') \<Rightarrow> Some (Some cycle, st')
            | Some (None, st') \<Rightarrow>
                Some (None, st'\<lparr>rec_stack := removeAll cell (rec_stack st'),
                                path := butlast (path st')\<rparr>)))"
| "dfs_loop n g [] st = Some (None, st)"
| "dfs_loop n g (dependent_cell # rest) st =
     (case dfs n g dependent_cell st of
        None \<Rightarrow> None
      | Some (Some cycle, st') \<Rightarrow> Some (Some cycle, st')
      | Some (None, st') \<Rightarrow> dfs_loop n g rest st')"

definition find_cycles :: "DependencyGraph \<Rightarrow> addr \<Rightarrow> addr list option" where
  "find_cycles g start_cell =
     (case dfs (length (dependents g) + 2) g start_cell \<lparr>visited = [], rec_stack = [], path = []\<rparr> of
        None \<Rightarrow> None
      | Some (None, st) \<Rightarrow> Some []
      | Some (Some cycle, st) \<Rightarrow> Some cycle)"

subsection \<open>Topological order\<close>

definition count_in_degree :: "DependencyGraph \<Rightarrow> addr list \<Rightarrow> (addr \<Rightarrow> int)" where
  "count_in_degree g cell_set =
     fold (\<lambda>cell deg.
             fold (\<lambda>dep deg'. if dep \<in> set cell_set then deg'(cell := deg' cell + 1) else deg')
                  (lookup_set (dependencies g) cell) deg)
          cell_set (\<lambda>c. 0)"

definition reduce_in_degree :: "addr list \<Rightarrow> addr \<Rightarrow> (addr \<Rightarrow> int) \<times> addr list \<Rightarrow> (addr \<Rightarrow> int) \<times> addr list" where
  "reduce_in_degree cell_set dependent_cell s =
     (case s of (deg, queue) \<Rightarrow>
        if dependent_cell \<in> set cell_set
        then (let deg' = deg(dependent_cell := deg dependent_cell - 1)
              in (deg', if deg' dependent_cell = 0 then queue @ [dependent_cell] else queue))
        else (deg, queue))"

fun kahn_loop :: "nat \<Rightarrow> DependencyGraph \<Rightarrow> addr list \<Rightarrow> addr list \<Rightarrow> (addr \<Rightarrow> int) \<Rightarrow> addr list \<Rightarrow> addr list option" where
  "kahn_loop n g cell_set [] deg result = Some result"
| "kahn_loop 0 g cell_set (cell # queue) deg result = None"
| "kahn_loop (Suc n) g cell_set (cell # queue) deg result =
     (case fold (reduce_in_degree cell_set) (lookup_set (dependents g) cell) (deg, queue) of
        (deg', queue') \<Rightarrow> kahn_loop n g cell_set queue' deg' (result @ [cell]))"

definition topological_sort :: "DependencyGraph \<Rightarrow> addr list \<Rightarrow> addr list option" where
  "topological_sort g cell_set =
     (let in_degree = count_in_degree g cell_set;
          queue = filter (\<lambda>cell. in_degree cell = 0) cell_set
      in kahn_loop (length cell_set + 1) g cell_set queue in_degree [])"

subsection \<open>Dependencies of a syntax tree\<close>

fun visit :: "ASTNode \<Rightarrow> addr list \<Rightarrow> addr list" where
  "visit (CellRefNode row col) deps = set_add (row, col) deps"
| "visit (RangeNode cs) deps = set_update deps cs"
| "visit (BinaryOpNode l op r) deps = visit r (visit l deps)"
| "visit (UnaryOpNode op x) deps = visit x deps"
| "visit (FunctionNode name args) deps = fold visit args deps"
| "visit _ deps = deps"

definition extract_dependencies_from_ast :: "ASTNode \<Rightarrow> addr list" where
  "extract_dependencies_from_ast ast = visit ast []"

section \<open>Calculation engine (engine.py)\<close>

record CalculationEngine =
  model :: SpreadsheetModel
  dependency_graph :: DependencyGraph
  dirty_cells :: "addr list"
  calculating :: bool

definition new_engine :: "SpreadsheetModel \<Rightarrow> CalculationEngine" where
  "new_engine m = \<lparr>model = m, dependency_graph = new_graph, dirty_cells = [], calculating = False\<rparr>"

definition engine_sheet :: "CalculationEngine \<Rightarrow> Sheet" where
  "engine_sheet eng = sheet (model eng)"

definition with_sheet :: "CalculationEngine \<Rightarrow> Sheet \<Rightarrow> CalculationEngine" where
  "with_sheet eng sh = eng\<lparr>model := (model eng)\<lparr>sheet := sh\<rparr>\<rparr>"

definition get_cell_value :: "Sheet \<Rightarrow> cell_getter" where
  "get_cell_value sh row col =
     (case map_of (cells sh) (row, col) of
        None \<Rightarrow> Inr (VStr [])
      | Some cell \<Rightarrow> Inr (if cell_value cell \<noteq> VNone then cell_value cell else VStr []))"

text \<open>\<open>cell = sheet.get_cell(r, c); cell.error = e; cell.value = e\<close>\<close>

definition mark_error :: "Sheet \<Rightarrow> addr \<Rightarrow> string \<Rightarrow> Sheet" where
  "mark_error sh pos e =
     (case get_cell sh (fst pos) (snd pos) of
        (cell, sh') \<Rightarrow> modify_cell sh' pos (\<lambda>c. c\<lparr>cell_error := Some e, cell_value := VStr e\<rparr>))"

definition calculate_cell :: "CalculationEngine \<Rightarrow> addr \<Rightarrow> CalculationEngine" where
  "calculate_cell eng cell_pos =
     (case get_cell (engine_sheet eng) (fst cell_pos) (snd cell_pos) of
        (cell0, sh0) \<Rightarrow>
          (let sh1 = modify_cell sh0 cell_pos (\<lambda>c. c\<lparr>cell_error := None\<rparr>);
               cell = cell0\<lparr>cell_error := None\<rparr>
           in if \<not> is_formula cell
              then (let v = (if is_numeric_text (cell_raw cell)
                             then (case float_of_str (cell_raw cell) of
                                     Inr x \<Rightarrow> VFloat x
                                   | Inl e \<Rightarrow> VStr (cell_raw cell))
                             else VStr (cell_raw cell))
                    in with_sheet eng (modify_cell sh1 cell_pos (\<lambda>c. c\<lparr>cell_value := v\<rparr>)))
              else (case map_of (ast_cache (dependency_graph eng)) cell_pos of
                      Some ast \<Rightarrow>
                        (let result = evaluate (get_cell_value sh1) ast
                         in if is_error_value result
                            then with_sheet eng
                                   (modify_cell sh1 cell_pos
                                      (\<lambda>c. c\<lparr>cell_error := Some (py_str result), cell_value := result\<rparr>))
                            else with_sheet eng (modify_cell sh1 cell_pos (\<lambda>c. c\<lparr>cell_value := result\<rparr>)))
                    | None \<Rightarrow> with_sheet eng (mark_error sh1 cell_pos ''#ERROR!''))))"

text \<open>
  \<open>mark_dirty\<close>: a work list. \<open>to_mark.pop()\<close> takes some element of the set; the model
  takes the first. \<open>None\<close> means the iteration budget ran out.
\<close>

fun mark_dirty_loop :: "nat \<Rightarrow> DependencyGraph \<Rightarrow> addr list \<Rightarrow> addr list \<Rightarrow> addr list \<Rightarrow> addr list option" where
  "mark_dirty_loop n g [] marked dirty = Some dirty"
| "mark_dirty_loop 0 g (current # to_mark) marked dirty = None"
| "mark_dirty_loop (Suc n) g (current # to_mark) marked dirty =
     (if current \<in> set marked then mark_dirty_loop n g to_mark marked dirty
      else mark_dirty_loop n g (set_update to_mark (get_dependents g current))
             (set_add current marked) (set_add current dirty))"

definition edge_count :: "DependencyGraph \<Rightarrow> nat" where
  "edge_count g = sum_list (map (\<lambda>(k, s). length s) (dependents g))"

definition mark_dirty :: "CalculationEngine \<Rightarrow> addr \<Rightarrow> CalculationEngine option" where
  "mark_dirty eng cell =
     (case mark_dirty_loop (edge_count (dependency_graph eng) + 2) (dependency_graph eng)
             [cell] [] (dirty_cells eng) of
        None \<Rightarrow> None
      | Some dirty \<Rightarrow> Some (eng\<lparr>dirty_cells := dirty\<rparr>))"

definition recalculate :: "CalculationEngine \<Rightarrow> CalculationEngine option" where
  "recalculate eng =
     (if calculating eng \<or> dirty_cells eng = [] then Some eng
      else (case topological_sort (dependency_graph eng) (dirty_cells eng) of
              None \<Rightarrow> None
            | Some calc_order \<Rightarrow>
                Some ((fold (\<lambda>cell_pos e. calculate_cell e cell_pos) calc_order
                         (eng\<lparr>calculating := True\<rparr>))
                      \<lparr>dirty_cells := [], calculating := False\<rparr>)))"

definition mark_cycle :: "addr list \<Rightarrow> Sheet \<Rightarrow> Sheet" where
  "mark_cycle cycles sh = fold (\<lambda>cycle_cell s. mark_error s cycle_cell ''#CYCLE!'') cycles sh"

text \<open>
  The lines of \<open>set_cell_formula\<close> that store the parsed formula: the syntax tree goes
  into the cache and every cell it reads becomes a dependency.
\<close>

definition register_formula :: "DependencyGraph \<Rightarrow> addr \<Rightarrow> ASTNode \<Rightarrow> DependencyGraph" where
  "register_formula g cell_pos ast =
     fold (\<lambda>dep g'. add_dependency g' cell_pos dep)
          (extract_dependencies_from_ast ast)
          (g\<lparr>ast_cache := AList.update cell_pos ast (ast_cache g)\<rparr>)"

definition set_cell_formula :: "CalculationEngine \<Rightarrow> int \<Rightarrow> int \<Rightarrow> string \<Rightarrow> CalculationEngine option" where
  "set_cell_formula eng row col formula =
     (let cell_pos = (row, col);
          eng1 = eng\<lparr>dependency_graph := clear_dependencies (dependency_graph eng) cell_pos\<rparr>;
          finish = (\<lambda>e. case mark_dirty e cell_pos of
                           None \<Rightarrow> None
                         | Some e' \<Rightarrow> if \<not> calculating e' then recalculate e' else Some e')
      in if formula \<noteq> [] \<and> hd formula = CHR ''=''
         then (case parse_formula formula of
                 None \<Rightarrow> None
               | Some (Inl exn) \<Rightarrow>
                   Some (with_sheet eng1 (mark_error (engine_sheet eng1) cell_pos ''#ERROR!''))
               | Some (Inr ast) \<Rightarrow>
                   (let g3 = register_formula (dependency_graph eng1) cell_pos ast;
                        eng3 = eng1\<lparr>dependency_graph := g3\<rparr>
                    in case find_cycles g3 cell_pos of
                         None \<Rightarrow> None
                       | Some cycles \<Rightarrow>
                           if cycles \<noteq> []
                           then Some (with_sheet eng3 (mark_cycle cycles (engine_sheet eng3)))
                           else finish eng3))
         else finish eng1)"

text \<open>
  A user edit, as the data flow of the specification and the repository's own test have
  it: the raw text is stored in the model, then the engine is told.
\<close>

definition edit_cell :: "CalculationEngine \<Rightarrow> int \<Rightarrow> int \<Rightarrow> string \<Rightarrow> CalculationEngine option" where
  "edit_cell eng row col txt =
     set_cell_formula (eng\<lparr>model := set_cell_raw (model eng) row col txt\<rparr>) row col txt"

definition value_at :: "CalculationEngine \<Rightarrow> int \<Rightarrow> int \<Rightarrow> pyval option" where
  "value_at eng row col = map_option cell_value (map_of (cells (engine_sheet eng)) (row, col))"

definition error_at :: "CalculationEngine \<Rightarrow> int \<Rightarrow> int \<Rightarrow> string option option" where
  "error_at eng row col = map_option cell_error (map_of (cells (engine_sheet eng)) (row, col))"

section \<open>Concrete inputs\<close>


text \<open>A lookup in which every cell is empty.\<close>

definition empty_lookup :: cell_getter where
  "empty_lookup row col = Inr (VStr [])"

text \<open>A graph in which A1 reads B1 and C1.\<close>

definition example_graph :: DependencyGraph where
  "example_graph =
     add_dependency (add_dependency (clear_dependencies new_graph (0, 0)) (0, 0) (0, 1)) (0, 0) (0, 2)"

text \<open>
  Scenarios: a list of edits \<open>(row, col, text)\<close> applied in order to a new engine on a new
  model, and the values and errors of a list of cells afterwards.
\<close>

definition run_edits :: "(int \<times> int \<times> string) list \<Rightarrow> CalculationEngine option" where
  "run_edits edits =
     fold (\<lambda>(row, col, txt) state. case state of None \<Rightarrow> None | Some eng \<Rightarrow> edit_cell eng row col txt)
          edits (Some (new_engine new_model))"

definition values_after :: "(int \<times> int \<times> string) list \<Rightarrow> addr list \<Rightarrow> pyval option list option" where
  "values_after edits ps = map_option (\<lambda>eng. map (\<lambda>(row, col). value_at eng row col) ps) (run_edits edits)"

definition errors_after :: "(int \<times> int \<times> string) list \<Rightarrow> addr list \<Rightarrow> string option option list option" where
  "errors_after edits ps = map_option (\<lambda>eng. map (\<lambda>(row, col). error_at eng row col) ps) (run_edits edits)"

text \<open>
  Deleting a cell: the entry is removed from the sheet and the engine is told that the
  cell has no formula.
\<close>

definition delete_and_recalculate :: "CalculationEngine \<Rightarrow> int \<Rightarrow> int \<Rightarrow> CalculationEngine option" where
  "delete_and_recalculate eng row col =
     set_cell_formula (with_sheet eng (delete_cell (engine_sheet eng) row col)) row col []"

section \<open>Properties of the address codec\<close>

lemma ord_chr: "0 \<le> n \<Longrightarrow> n < 256 \<Longrightarrow> ord (chr n) = n"
  by (simp add: ord_def chr_def)

lemma chr_ord: "chr (ord c) = c"
  by (simp add: ord_def chr_def)

lemma ord_bounds: "0 \<le> ord c \<and> ord c < 256"
  unfolding ord_def by (metis of_char_mod_256 pos_mod_bound pos_mod_sign zero_less_numeral)

lemma digits_value_snoc: "digits_value (s @ [c]) = digits_value s * 10 + (ord c - 48)"
  by (simp add: digits_value_def)

lemma str_nat_digits: "list_all is_decimal (str_nat n)"
proof (induction n rule: str_nat.induct)
  case (1 n)
  show ?case
  proof (cases "n < 10")
    case True
    then show ?thesis by (subst str_nat.simps) (simp add: is_decimal_def ord_chr)
  next
    case False
    have "is_decimal (chr (48 + int (n mod 10)))"
      by (simp add: is_decimal_def ord_chr)
    with False 1 show ?thesis by (subst str_nat.simps) simp
  qed
qed

lemma str_nat_nonempty: "str_nat n \<noteq> []"
  by (subst str_nat.simps) simp

lemma digits_value_str_nat: "digits_value (str_nat n) = int n"
proof (induction n rule: str_nat.induct)
  case (1 n)
  show ?case
  proof (cases "n < 10")
    case True
    then show ?thesis by (subst str_nat.simps) (simp add: digits_value_def ord_chr)
  next
    case False
    have "ord (chr (48 + int (n mod 10))) = 48 + int (n mod 10)"
      by (simp add: ord_chr)
    with False 1 show ?thesis
      by (subst str_nat.simps) (simp add: digits_value_snoc zmod_int zdiv_int)
  qed
qed

lemma lval_snoc: "lval (s @ [c]) = lval s * 26 + (ord c - 64)"
  by (simp add: lval_def)

lemma is_AZ_chr: "0 \<le> d \<Longrightarrow> d < 26 \<Longrightarrow> is_AZ (chr (65 + d))"
  by (simp add: is_AZ_def ord_chr)

lemma upper_AZ: "list_all is_AZ s \<Longrightarrow> upper s = s"
  by (induction s) (auto simp: upper_def upper_char_def is_AZ_def is_az_def)

lemma loop_unfold:
  "0 \<le> col \<Longrightarrow> col_to_letter_loop col acc =
     (if col < 26 then chr (65 + col mod 26) # acc
      else col_to_letter_loop (col div 26 - 1) (chr (65 + col mod 26) # acc))"
  by (subst col_to_letter_loop.simps) (auto simp: Let_def)

lemma loop_acc: "0 \<le> col \<Longrightarrow> col_to_letter_loop col acc = col_to_letter_loop col [] @ acc"
proof (induction "nat col" arbitrary: col acc rule: less_induct)
  case less
  show ?case
  proof (cases "col < 26")
    case True
    with less.prems show ?thesis by (simp add: loop_unfold)
  next
    case False
    let ?c = "col div 26 - 1"
    from False less.prems have nn: "0 \<le> ?c" and lt: "nat ?c < nat col" by auto
    have "col_to_letter_loop ?c (chr (65 + col mod 26) # acc)
            = col_to_letter_loop ?c [] @ (chr (65 + col mod 26) # acc)"
      using less.hyps[OF lt nn] .
    moreover have "col_to_letter_loop ?c [chr (65 + col mod 26)]
            = col_to_letter_loop ?c [] @ [chr (65 + col mod 26)]"
      using less.hyps[OF lt nn] .
    ultimately show ?thesis using False less.prems
      by (simp add: loop_unfold[of col acc] loop_unfold[of col "[]"])
  qed
qed

lemma col_to_letter_rec:
  "0 \<le> col \<Longrightarrow> col_to_letter col =
     (if col < 26 then [chr (65 + col)]
      else col_to_letter (col div 26 - 1) @ [chr (65 + col mod 26)])"
  unfolding col_to_letter_def
  using loop_acc[of "col div 26 - 1" "[chr (65 + col mod 26)]"]
  by (auto simp: loop_unfold[of col "[]"])

lemma col_to_letter_AZ: "0 \<le> col \<Longrightarrow> list_all is_AZ (col_to_letter col) \<and> col_to_letter col \<noteq> []"
proof (induction "nat col" arbitrary: col rule: less_induct)
  case less
  show ?case
  proof (cases "col < 26")
    case True
    with less.prems show ?thesis by (simp add: col_to_letter_rec is_AZ_chr)
  next
    case False
    let ?c = "col div 26 - 1"
    from False less.prems have nn: "0 \<le> ?c" and lt: "nat ?c < nat col" by auto
    have "is_AZ (chr (65 + col mod 26))" by (simp add: is_AZ_chr)
    with less.hyps[OF lt nn] False less.prems show ?thesis
      by (simp add: col_to_letter_rec[of col])
  qed
qed

lemma lval_col_to_letter: "0 \<le> col \<Longrightarrow> lval (col_to_letter col) = col + 1"
proof (induction "nat col" arbitrary: col rule: less_induct)
  case less
  show ?case
  proof (cases "col < 26")
    case True
    with less.prems show ?thesis by (simp add: col_to_letter_rec lval_def ord_chr)
  next
    case False
    let ?c = "col div 26 - 1"
    from False less.prems have nn: "0 \<le> ?c" and lt: "nat ?c < nat col" by auto
    have o: "ord (chr (65 + col mod 26)) = 65 + col mod 26" by (simp add: ord_chr)
    from less.hyps[OF lt nn] False less.prems show ?thesis
      by (simp add: col_to_letter_rec[of col] lval_snoc o)
  qed
qed

lemma letter_to_col_lval: "letter_to_col s = lval (upper s) - 1"
  by (simp add: letter_to_col_def lval_def)

lemma letter_to_col_col_to_letter: "0 \<le> n \<Longrightarrow> letter_to_col (col_to_letter n) = n"
  using col_to_letter_AZ[of n] by (simp add: letter_to_col_lval upper_AZ lval_col_to_letter)

lemma lval_pos: "list_all is_AZ s \<Longrightarrow> s \<noteq> [] \<Longrightarrow> 1 \<le> lval s"
proof (induction s rule: rev_induct)
  case Nil then show ?case by simp
next
  case (snoc c s)
  then have c: "1 \<le> ord c - 64" by (simp add: is_AZ_def)
  have "0 \<le> lval s"
  proof (cases "s = []")
    case True then show ?thesis by (simp add: lval_def)
  next
    case False with snoc show ?thesis by simp
  qed
  with c show ?case by (simp add: lval_snoc)
qed

lemma col_to_letter_lval: "list_all is_AZ s \<Longrightarrow> s \<noteq> [] \<Longrightarrow> col_to_letter (lval s - 1) = s"
proof (induction s rule: rev_induct)
  case Nil then show ?case by simp
next
  case (snoc c s)
  then have cb: "65 \<le> ord c" "ord c \<le> 90" by (simp_all add: is_AZ_def)
  define d where "d = ord c - 65"
  have d: "0 \<le> d" "d < 26" "ord c = 65 + d" using cb by (simp_all add: d_def)
  have cc: "chr (65 + d) = c" using d(3) chr_ord[of c] by simp
  show ?case
  proof (cases "s = []")
    case True
    with d cc show ?thesis by (simp add: lval_def col_to_letter_rec)
  next
    case False
    with snoc have az: "list_all is_AZ s" and ih: "col_to_letter (lval s - 1) = s" by simp_all
    from lval_pos[OF az False] have p: "1 \<le> lval s" .
    let ?n = "lval (s @ [c]) - 1"
    have n: "?n = lval s * 26 + d" by (simp add: lval_snoc d(3))
    have n26: "\<not> ?n < 26" using p d by (simp add: n)
    have nn: "0 \<le> ?n" using p d by (simp add: n)
    have dv: "?n div 26 = lval s" using d by (simp add: n)
    have md: "?n mod 26 = d" using d by (simp add: n)
    show ?thesis
      using col_to_letter_rec[OF nn] n26 by (simp only: dv md ih cc if_False)
  qed
qed

lemma col_to_letter_letter_to_col:
  "list_all is_AZ s \<Longrightarrow> s \<noteq> [] \<Longrightarrow> col_to_letter (letter_to_col s) = s"
  by (simp add: letter_to_col_lval upper_AZ col_to_letter_lval)

lemma digit_not_space: "is_decimal c \<Longrightarrow> \<not> isspace c"
  by (auto simp: is_decimal_def isspace_def)

lemma digit_not_AZ: "is_decimal c \<Longrightarrow> \<not> is_AZ c"
  by (auto simp: is_decimal_def is_AZ_def)

lemma digit_not_az: "is_decimal c \<Longrightarrow> \<not> is_az c"
  by (auto simp: is_decimal_def is_az_def)

lemma dropWhile_space_digits: "list_all is_decimal s \<Longrightarrow> dropWhile is_numeral_space s = s"
  by (cases s) (auto simp: digit_not_space is_numeral_space_def)

lemma strip_digits: "list_all is_decimal s \<Longrightarrow> strip_numeral s = s"
proof -
  assume a: "list_all is_decimal s"
  then have "list_all is_decimal (rev s)" by (simp add: list_all_iff)
  with a show ?thesis by (simp add: strip_numeral_def dropWhile_space_digits)
qed

lemma digit_groups_digits: "list_all is_decimal s \<Longrightarrow> s \<noteq> [] \<Longrightarrow> digit_groups s"
proof (induction s rule: digit_groups.induct)
  case (3 c d cs)
  then have "is_decimal d" by simp
  then have "d \<noteq> CHR ''_''" by (auto simp: is_decimal_def ord_def)
  with 3 show ?case by simp
qed simp_all

lemma filter_digits: "list_all is_decimal s \<Longrightarrow> filter is_decimal s = s"
  by (induction s) auto

lemma int_of_str_digits:
  assumes "list_all is_decimal s" and "s \<noteq> []"
  shows "int_of_str s = Inr (digits_value s)"
proof -
  from assms have "is_decimal (hd s)" by (cases s) auto
  then have "hd s \<noteq> CHR ''-''" "hd s \<noteq> CHR ''+''" by (auto simp: is_decimal_def ord_def)
  with assms show ?thesis
    by (simp add: int_of_str_def strip_digits digit_groups_digits filter_digits Let_def)
qed

lemma upper_digits: "list_all is_decimal s \<Longrightarrow> upper s = s"
  by (induction s) (auto simp: upper_def upper_char_def digit_not_az)

lemma upper_append: "upper (s @ t) = upper s @ upper t"
  by (simp add: upper_def)

lemma takeWhile_AZ_digits:
  "list_all is_AZ ls \<Longrightarrow> list_all is_decimal ds \<Longrightarrow> takeWhile is_AZ (ls @ ds) = ls"
  by (cases ds) (auto simp: list_all_iff digit_not_AZ takeWhile_append2 intro: takeWhile_eq_all_conv[THEN iffD2])

lemma dropWhile_AZ_digits:
  "list_all is_AZ ls \<Longrightarrow> list_all is_decimal ds \<Longrightarrow> dropWhile is_AZ (ls @ ds) = ds"
  by (cases ds) (auto simp: list_all_iff digit_not_AZ dropWhile_append2)

lemma re_match_no_newline:
  assumes "s = [] \<or> last s \<noteq> CHR 0x0A"
  shows "re_match_address s =
     (if letters_then_digits s then Some (takeWhile is_AZ s, dropWhile is_AZ s) else None)"
  using assms by (auto simp: re_match_address_def letters_then_digits_def Let_def)

lemma parse_address_round:
  assumes "0 \<le> row" and "0 \<le> col"
  shows "parse_address (address_to_string row col) = Inr (row, col)"
proof -
  let ?ls = "col_to_letter col" and ?ds = "str_nat (nat (row + 1))"
  have az: "list_all is_AZ ?ls" and ne: "?ls \<noteq> []" using col_to_letter_AZ[OF assms(2)] by simp_all
  have dg: "list_all is_decimal ?ds" and dne: "?ds \<noteq> []" by (simp_all add: str_nat_digits str_nat_nonempty)
  have s: "address_to_string row col = ?ls @ ?ds" using assms(1) by (simp add: address_to_string_def str_int_def)
  have u: "upper (?ls @ ?ds) = ?ls @ ?ds" by (simp add: upper_append upper_AZ[OF az] upper_digits[OF dg])
  have "is_decimal (last ?ds)" using dg dne by (simp add: list_all_iff)
  then have "last ?ds \<noteq> CHR 0x0A" by (auto simp: is_decimal_def ord_def)
  then have nl: "last (?ls @ ?ds) \<noteq> CHR 0x0A" using dne by simp
  have m: "re_match_address (?ls @ ?ds) = Some (?ls, ?ds)"
    using nl ne dne dg
    by (simp add: re_match_no_newline letters_then_digits_def takeWhile_AZ_digits[OF az dg] dropWhile_AZ_digits[OF az dg])
  have v: "int_of_str ?ds = Inr (row + 1)" using assms(1) by (simp add: int_of_str_digits[OF dg dne] digits_value_str_nat)
  show ?thesis
    by (simp add: parse_address_def s u m v letter_to_col_col_to_letter[OF assms(2)])
qed



text \<open>
  Claim C6. The address codec round-trips in both directions: on every non-empty string of
  the letters A..Z, \<open>col_to_letter\<close> after \<open>letter_to_col\<close> is the identity; on every
  nonnegative integer, \<open>letter_to_col\<close> after \<open>col_to_letter\<close> is the identity; and for
  every nonnegative row and column, parsing the formatted address gives the pair back.
\<close>

theorem address_codec_round_trip:
  "(\<forall>s. s \<noteq> [] \<and> list_all is_AZ s \<longrightarrow> col_to_letter (letter_to_col s) = s) \<and>
   (\<forall>n. 0 \<le> n \<longrightarrow> letter_to_col (col_to_letter n) = n) \<and>
   (\<forall>row col. 0 \<le> row \<and> 0 \<le> col \<longrightarrow>
      parse_address (address_to_string row col) = Inr (row, col))"
  using col_to_letter_letter_to_col letter_to_col_col_to_letter parse_address_round
  by blast

theorem address_codec_round_trip_witness:
  "letter_to_col ''AZ'' = 51 \<and> col_to_letter (letter_to_col ''AZ'') = ''AZ'' \<and>
   col_to_letter 702 = ''AAA'' \<and> letter_to_col (col_to_letter 702) = 702 \<and>
   address_to_string 4 27 = ''AB5'' \<and> parse_address (address_to_string 4 27) = Inr (4, 27)"
proof -
  have h: "''AZ'' \<noteq> [] \<and> list_all is_AZ ''AZ''"
    by (simp add: is_AZ_def ord_def)
  have a: "col_to_letter (letter_to_col ''AZ'') = ''AZ''"
    using address_codec_round_trip h by blast
  have b: "letter_to_col (col_to_letter 702) = 702"
    using address_codec_round_trip by simp
  have c: "parse_address (address_to_string 4 27) = Inr (4, 27)"
    using address_codec_round_trip by simp
  have d: "letter_to_col ''AZ'' = 51"
    by code_simp
  have e: "col_to_letter 702 = ''AAA''"
    by code_simp
  have f: "address_to_string 4 27 = ''AB5''"
    by code_simp
  from a b c d e f show ?thesis by simp
qed




section \<open>Properties of the tokenizer\<close>

subsection \<open>Scanning\<close>

lemma scan_while_le: "pos \<le> length f \<Longrightarrow> scan_while P f pos \<le> length f"
proof -
  assume a: "pos \<le> length f"
  have "length (takeWhile P (drop pos f)) \<le> length (drop pos f)" by (rule length_takeWhile_le)
  with a show ?thesis by (simp add: scan_while_def)
qed

lemma scan_while_all:
  assumes "pos \<le> i" and "i < scan_while P f pos"
  shows "P (f ! i)"
proof -
  let ?t = "takeWhile P (drop pos f)"
  from assms have i: "i - pos < length ?t" by (simp add: scan_while_def)
  then have "?t ! (i - pos) \<in> set ?t" by (rule nth_mem)
  then have "P (?t ! (i - pos))" by (rule set_takeWhileD[THEN conjunct2])
  moreover have "?t ! (i - pos) = drop pos f ! (i - pos)" using i by (rule takeWhile_nth)
  moreover have "i - pos < length (drop pos f)"
    using i length_takeWhile_le[of P "drop pos f"] by linarith
  ultimately show ?thesis using assms(1) by simp
qed

lemma scan_while_stop:
  assumes "scan_while P f pos < length f"
  shows "\<not> P (f ! scan_while P f pos)"
proof -
  let ?t = "takeWhile P (drop pos f)"
  from assms have "length ?t < length (drop pos f)" by (simp add: scan_while_def)
  then have "\<not> P (drop pos f ! length ?t)" by (rule nth_length_takeWhile)
  moreover have "pos + length ?t \<le> length f" using assms by (simp add: scan_while_def)
  ultimately show ?thesis by (simp add: scan_while_def)
qed

lemma scan_while_eqI:
  assumes "pos \<le> p" and "p \<le> length f"
    and all: "\<And>i. pos \<le> i \<Longrightarrow> i < p \<Longrightarrow> P (f ! i)"
    and stop: "p < length f \<Longrightarrow> \<not> P (f ! p)"
  shows "scan_while P f pos = p"
proof -
  let ?q = "scan_while P f pos"
  have ql: "?q \<le> length f" using assms by (intro scan_while_le) simp
  have qg: "pos \<le> ?q" by (rule scan_while_ge)
  have "\<not> ?q < p"
  proof
    assume l: "?q < p"
    then have "?q < length f" using assms(2) by simp
    then have "\<not> P (f ! ?q)" by (rule scan_while_stop)
    with all[OF qg l] show False by simp
  qed
  moreover have "\<not> p < ?q"
  proof
    assume l: "p < ?q"
    then have "P (f ! p)" using assms(1) by (intro scan_while_all[of pos p P f])
    moreover have "p < length f" using l ql by simp
    ultimately show False using stop by simp
  qed
  ultimately show ?thesis by simp
qed

lemma scan_while_cong:
  assumes len: "length f' = length f"
    and eq: "\<And>i. i < length f \<Longrightarrow> P (f' ! i) = P (f ! i)"
    and pos: "pos \<le> length f"
  shows "scan_while P f' pos = scan_while P f pos"
proof (rule scan_while_eqI)
  show "pos \<le> scan_while P f pos" by (rule scan_while_ge)
  show "scan_while P f pos \<le> length f'" using scan_while_le[OF pos] len by simp
  fix i assume i: "pos \<le> i" "i < scan_while P f pos"
  then have "P (f ! i)" by (rule scan_while_all)
  moreover have "i < length f" using i scan_while_le[OF pos, of P] by simp
  ultimately show "P (f' ! i)" using eq by simp
next
  assume "scan_while P f pos < length f'"
  then have l: "scan_while P f pos < length f" using len by simp
  then have "\<not> P (f ! scan_while P f pos)" by (rule scan_while_stop)
  then show "\<not> P (f' ! scan_while P f pos)" using eq[OF l] by simp
qed

lemma slice_cong:
  assumes len: "length f' = length f"
    and eq: "\<And>i. a \<le> i \<Longrightarrow> i < b \<Longrightarrow> i < length f \<Longrightarrow> f' ! i = f ! i"
  shows "slice f' a b = slice f a b"
proof (rule nth_equalityI)
  show l: "length (slice f' a b) = length (slice f a b)" by (simp add: slice_def len)
  fix i assume "i < length (slice f' a b)"
  then have i: "i < b - a" "i < length f - a" by (simp_all add: slice_def len)
  then have "f' ! (a + i) = f ! (a + i)" by (intro eq) auto
  then show "slice f' a b ! i = slice f a b ! i" using i by (simp add: slice_def len)
qed

subsection \<open>Unknown characters are passed over like white space\<close>

lemma length_blank [simp]: "length (blank_unknown f) = length f"
  by (simp add: blank_unknown_def)

lemma blank_nth:
  "i < length f \<Longrightarrow>
   blank_unknown f ! i = (if unknown_char (f ! i) \<and> \<not> in_string f i then CHR '' '' else f ! i)"
  by (simp add: blank_unknown_def)

lemma space_known: "\<not> unknown_char (CHR '' '')" "isspace (CHR '' '')"
  by (simp_all add: unknown_char_def isspace_def ord_def)

lemma blank_same: "i < length f \<Longrightarrow> \<not> unknown_char (f ! i) \<Longrightarrow> blank_unknown f ! i = f ! i"
  by (simp add: blank_nth)

lemma blank_pred:
  assumes "i < length f" and "\<not> P (CHR '' '')" and "\<And>c. unknown_char c \<Longrightarrow> \<not> P c"
  shows "P (blank_unknown f ! i) = P (f ! i)"
  using assms by (auto simp: blank_nth)

lemma blank_eq_char:
  assumes "i < length f" and "c \<noteq> CHR '' ''" and "\<not> unknown_char c"
  shows "(blank_unknown f ! i = c) = (f ! i = c)"
  using assms by (auto simp: blank_nth)

lemma in_string_Suc:
  "i < length f \<Longrightarrow> in_string f (Suc i) = (if f ! i = CHR 0x22 then \<not> in_string f i else in_string f i)"
  by (simp add: in_string_def take_Suc_conv_app_nth)

lemma in_string_range:
  assumes "pos \<le> p" and "p \<le> length f" and "\<And>i. pos \<le> i \<Longrightarrow> i < p \<Longrightarrow> f ! i \<noteq> CHR 0x22"
  shows "in_string f p = in_string f pos"
  using assms
proof (induction p rule: dec_induct)
  case base
  show ?case by simp
next
  case (step n)
  then have "in_string f (Suc n) = in_string f n" by (simp add: in_string_Suc)
  with step show ?case by simp
qed

lemma unknown_not_alnum: "unknown_char c \<Longrightarrow> \<not> isalnum c"
  and unknown_not_digit: "unknown_char c \<Longrightarrow> \<not> isdigit c"
  and unknown_not_alpha: "unknown_char c \<Longrightarrow> \<not> isalpha c"
  and unknown_not_space: "unknown_char c \<Longrightarrow> \<not> isspace c"
  by (simp_all add: unknown_char_def isalnum_def)

lemma space_classes:
  "\<not> isalnum (CHR '' '')" "\<not> isdigit (CHR '' '')" "\<not> isalpha (CHR '' '')"
  by (simp_all add: isalnum_def isalpha_def isdigit_def is_decimal_def is_AZ_def is_az_def ord_def)

lemma alnum_not_quote: "isalnum c \<Longrightarrow> c \<noteq> CHR 0x22"
  by (auto simp: isalnum_def isalpha_def isdigit_def is_decimal_def is_AZ_def is_az_def ord_def)

lemma read_number_blank:
  assumes p: "p < length f"
  shows "read_number (blank_unknown f) p ts = read_number f p ts"
proof -
  let ?D = "\<lambda>c. isdigit c \<or> c = CHR ''.''"
  have s: "scan_while ?D (blank_unknown f) p = scan_while ?D f p"
    using p by (intro scan_while_cong) (auto simp: blank_nth space_classes unknown_char_def isalnum_def)
  have "slice (blank_unknown f) p (scan_while ?D f p) = slice f p (scan_while ?D f p)"
  proof (rule slice_cong)
    fix i assume i: "p \<le> i" "i < scan_while ?D f p" "i < length f"
    then have "?D (f ! i)" by (intro scan_while_all[of p i ?D f])
    then have "\<not> unknown_char (f ! i)" by (auto simp: unknown_char_def isalnum_def)
    then show "blank_unknown f ! i = f ! i" using i by (simp add: blank_same)
  qed simp
  with s show ?thesis by (simp add: read_number_def Let_def)
qed

lemma read_string_blank:
  assumes p: "p < length f" and q: "f ! p = CHR 0x22" and top: "\<not> in_string f p"
  shows "read_string (blank_unknown f) p ts = read_string f p ts"
proof -
  let ?Q = "\<lambda>c. c \<noteq> CHR 0x22"
  let ?p1 = "scan_while ?Q f (p + 1)"
  have s: "scan_while ?Q (blank_unknown f) (p + 1) = ?p1"
    using p by (intro scan_while_cong) (auto simp: blank_nth unknown_char_def)
  have ins: "in_string f (Suc p)" using p q top by (simp add: in_string_Suc)
  have mid: "blank_unknown f ! i = f ! i" if i: "p + 1 \<le> i" "i < ?p1" "i < length f" for i
  proof -
    have "in_string f i = in_string f (Suc p)"
    proof (rule in_string_range)
      fix j assume "Suc p \<le> j" "j < i"
      then have "?Q (f ! j)" using i by (intro scan_while_all[of "p + 1" j ?Q f]) auto
      then show "f ! j \<noteq> CHR 0x22" .
    qed (use i in auto)
    with ins show ?thesis using i by (simp add: blank_nth)
  qed
  have "slice (blank_unknown f) (p + 1) (?p1 + 1 - 1) = slice f (p + 1) (?p1 + 1 - 1)"
    by (rule slice_cong) (auto intro: mid)
  moreover have "slice (blank_unknown f) (p + 1) (?p1 - 1) = slice f (p + 1) (?p1 - 1)"
    by (rule slice_cong) (auto intro: mid)
  ultimately show ?thesis using s by (simp add: read_string_def Let_def)
qed

lemma read_identifier_blank:
  assumes p: "p < length f"
  shows "read_identifier (blank_unknown f) p ts = read_identifier f p ts"
proof -
  let ?B = "blank_unknown f"
  have sc: "scan_while isalnum ?B q = scan_while isalnum f q" if "q \<le> length f" for q
    using that by (intro scan_while_cong) (auto simp: blank_nth space_classes unknown_not_alnum)
  have sl: "slice ?B q (scan_while isalnum f q) = slice f q (scan_while isalnum f q)" for q
  proof (rule slice_cong)
    fix i assume i: "q \<le> i" "i < scan_while isalnum f q" "i < length f"
    then have "isalnum (f ! i)" by (intro scan_while_all[of q i isalnum f])
    then have "\<not> unknown_char (f ! i)" using unknown_not_alnum by blast
    then show "?B ! i = f ! i" using i by (simp add: blank_same)
  qed simp
  let ?p1 = "scan_while isalnum f p"
  have p1: "?p1 \<le> length f" using p by (intro scan_while_le) simp
  have colon: "(?B ! ?p1 = CHR '':'') = (f ! ?p1 = CHR '':'')" if "?p1 + 1 < length f"
    using that by (intro blank_eq_char) (auto simp: unknown_char_def)
  have sc2: "scan_while isalnum ?B (Suc ?p1) = scan_while isalnum f (Suc ?p1)" if "?p1 + 1 < length f"
    using that by (intro sc) simp
  have sc1: "scan_while isalnum ?B p = ?p1" using p by (intro sc) simp
  show ?thesis
  proof (cases "?p1 + 1 < length f")
    case True
    show ?thesis
      unfolding read_identifier_def Let_def
      using True by (simp add: sc1 sl colon[OF True] sc2[OF True])
  next
    case False
    then show ?thesis
      unfolding read_identifier_def Let_def by (simp add: sc1 sl)
  qed
qed

lemma read_operator_blank:
  assumes p: "p < length f" and k: "\<not> unknown_char (f ! p)"
  shows "read_operator (blank_unknown f) p ts = read_operator f p ts"
proof -
  let ?B = "blank_unknown f"
  have c: "?B ! p = f ! p" using p k by (simp add: blank_same)
  have e: "(?B ! (p + 1) = CHR ''='') = (f ! (p + 1) = CHR ''='')" if "p + 1 < length f"
    using that by (intro blank_eq_char) (auto simp: unknown_char_def)
  have sl: "slice ?B p (p + 2) = slice f p (p + 2)" if "p + 1 < length f" "f ! (p + 1) = CHR ''=''"
  proof (rule slice_cong)
    fix i assume "p \<le> i" "i < p + 2" "i < length f"
    then have "i = p \<or> i = p + 1" by auto
    then show "?B ! i = f ! i" using c that by (auto simp: blank_same unknown_char_def)
  qed simp
  show ?thesis
    unfolding read_operator_def Let_def
    using e sl by (auto simp: c)
qed

lemma lex_step_blank:
  assumes p: "p < length f" and top: "\<not> in_string f p" and k: "\<not> unknown_char (f ! p)"
  shows "lex_step (blank_unknown f) p ts = lex_step f p ts"
proof -
  have c: "blank_unknown f ! p = f ! p" using p k by (simp add: blank_same)
  show ?thesis
    unfolding lex_step_def Let_def c
    using read_number_blank[OF p] read_string_blank[OF p _ top] read_identifier_blank[OF p]
      read_operator_blank[OF p k]
    by simp
qed

lemma top_after:
  assumes "p \<le> q" and "q \<le> length f" and "\<not> in_string f p"
    and "\<And>i. p \<le> i \<Longrightarrow> i < q \<Longrightarrow> f ! i \<noteq> CHR 0x22"
  shows "\<not> in_string f q"
  using in_string_range[of p q f] assms by simp

lemma read_number_top:
  assumes p: "p < length f" and top: "\<not> in_string f p"
  shows "\<not> in_string f (fst (read_number f p ts))"
proof -
  let ?D = "\<lambda>c. isdigit c \<or> c = CHR ''.''"
  have "\<not> in_string f (scan_while ?D f p)"
  proof (rule top_after[OF scan_while_ge _ top])
    show "scan_while ?D f p \<le> length f" using p by (intro scan_while_le) simp
    fix i assume "p \<le> i" "i < scan_while ?D f p"
    then have "?D (f ! i)" by (rule scan_while_all)
    then show "f ! i \<noteq> CHR 0x22" by (auto simp: isdigit_def is_decimal_def ord_def)
  qed
  then show ?thesis by (simp add: read_number_def Let_def)
qed

lemma read_string_top:
  assumes p: "p < length f" and q: "f ! p = CHR 0x22" and top: "\<not> in_string f p"
  shows "\<not> in_string f (fst (read_string f p ts)) \<or> length f \<le> fst (read_string f p ts)"
proof -
  let ?Q = "\<lambda>c. c \<noteq> CHR 0x22"
  let ?p1 = "scan_while ?Q f (p + 1)"
  show ?thesis
  proof (cases "?p1 < length f")
    case True
    have "in_string f ?p1 = in_string f (Suc p)"
    proof (rule in_string_range)
      show "Suc p \<le> ?p1" using scan_while_ge[of "p + 1" ?Q f] by simp
      show "?p1 \<le> length f" using True by simp
      fix i assume "Suc p \<le> i" "i < ?p1"
      then have "?Q (f ! i)" by (intro scan_while_all[of "p + 1" i ?Q f]) auto
      then show "f ! i \<noteq> CHR 0x22" .
    qed
    moreover have "in_string f (Suc p)" using p q top by (simp add: in_string_Suc)
    moreover have "f ! ?p1 = CHR 0x22" using scan_while_stop[OF True] by simp
    ultimately have "\<not> in_string f (Suc ?p1)" using True by (simp add: in_string_Suc)
    then show ?thesis using True by (simp add: read_string_def Let_def)
  next
    case False
    then show ?thesis by (simp add: read_string_def Let_def)
  qed
qed

lemma read_identifier_top:
  assumes p: "p < length f" and top: "\<not> in_string f p"
  shows "\<not> in_string f (fst (read_identifier f p ts))"
proof -
  let ?p1 = "scan_while isalnum f p"
  let ?p2 = "scan_while isalnum f (Suc ?p1)"
  have p1: "?p1 \<le> length f" using p by (intro scan_while_le) simp
  have t1: "\<not> in_string f ?p1"
  proof (rule top_after[OF scan_while_ge p1 top])
    fix i assume "p \<le> i" "i < ?p1"
    then have "isalnum (f ! i)" by (rule scan_while_all)
    then show "f ! i \<noteq> CHR 0x22" by (rule alnum_not_quote)
  qed
  have t2: "\<not> in_string f ?p2" if c: "?p1 + 1 < length f" "f ! ?p1 = CHR '':''"
  proof -
    have s: "\<not> in_string f (Suc ?p1)" using c t1 by (simp add: in_string_Suc)
    show ?thesis
    proof (rule top_after[OF scan_while_ge _ s])
      show "?p2 \<le> length f" using c by (intro scan_while_le) simp
      fix i assume "Suc ?p1 \<le> i" "i < ?p2"
      then have "isalnum (f ! i)" by (rule scan_while_all)
      then show "f ! i \<noteq> CHR 0x22" by (rule alnum_not_quote)
    qed
  qed
  show ?thesis
    unfolding read_identifier_def Let_def using t1 t2 by auto
qed

lemma read_operator_top:
  assumes p: "p < length f" and top: "\<not> in_string f p" and o: "f ! p \<in> set ''+-*/^=<>''"
  shows "\<not> in_string f (fst (read_operator f p ts))"
proof -
  from o have nq: "f ! p \<noteq> CHR 0x22" by auto
  then have t1: "\<not> in_string f (Suc p)" using p top by (simp add: in_string_Suc)
  have t2: "\<not> in_string f (Suc (Suc p))" if "p + 1 < length f" "f ! (p + 1) = CHR ''=''"
    using that t1 by (simp add: in_string_Suc)
  show ?thesis
    unfolding read_operator_def Let_def using t1 t2 by auto
qed

lemma lex_step_top:
  assumes p: "p < length f" and top: "\<not> in_string f p"
  shows "\<not> in_string f (fst (lex_step f p ts)) \<or> length f \<le> fst (lex_step f p ts)"
proof -
  have t1: "f ! p \<noteq> CHR 0x22 \<Longrightarrow> \<not> in_string f (Suc p)"
    using p top by (simp add: in_string_Suc)
  show ?thesis
    unfolding lex_step_def Let_def
    using read_number_top[OF p top, of ts] read_string_top[OF p _ top, of ts]
      read_identifier_top[OF p top, of ts] read_operator_top[OF p top, of ts] t1
    by auto
qed

lemma skip_whitespace_stays:
  assumes "pos < length f" and "\<not> isspace (f ! pos)"
  shows "skip_whitespace f pos = pos"
proof -
  from assms(1) have "drop pos f = f ! pos # drop (Suc pos) f"
    by (simp add: Cons_nth_drop_Suc)
  with assms(2) show ?thesis by (simp add: skip_whitespace_def scan_while_def)
qed

lemma skip_whitespace_space:
  assumes "pos < length f" and "isspace (f ! pos)"
  shows "skip_whitespace f pos = skip_whitespace f (Suc pos)"
proof -
  from assms(1) have "drop pos f = f ! pos # drop (Suc pos) f"
    by (simp add: Cons_nth_drop_Suc)
  with assms(2) show ?thesis by (simp add: skip_whitespace_def scan_while_def)
qed

lemma lex_step_unknown:
  assumes "unknown_char (f ! pos)"
  shows "lex_step f pos tokens = (pos + 1, tokens)"
  using assms by (simp add: lex_step_def unknown_char_def isalnum_def Let_def)

lemma tokenize_loop_end: "length f \<le> pos \<Longrightarrow> tokenize_loop f pos tokens = (pos, tokens)"
  by (subst tokenize_loop.simps) simp

lemma tokenize_loop_step:
  assumes "pos < length f" and "\<not> isspace (f ! pos)"
  shows "tokenize_loop f pos tokens =
           (case lex_step f pos tokens of (pos2, tokens2) \<Rightarrow> tokenize_loop f pos2 tokens2)"
  using assms by (subst tokenize_loop.simps) (simp add: skip_whitespace_stays)

lemma tokenize_loop_skip:
  assumes p: "pos < length f" and i: "inert (f ! pos)"
  shows "tokenize_loop f pos tokens = tokenize_loop f (Suc pos) tokens"
proof (cases "isspace (f ! pos)")
  case True
  let ?s = "skip_whitespace f (Suc pos)"
  have sk: "skip_whitespace f pos = ?s" using p True by (rule skip_whitespace_space)
  show ?thesis
  proof (cases "Suc pos < length f")
    case True
    let ?r = "if length f \<le> ?s then (?s, tokens)
              else (case lex_step f ?s tokens of (pos2, tokens2) \<Rightarrow> tokenize_loop f pos2 tokens2)"
    have "tokenize_loop f pos tokens = ?r"
      using p by (subst tokenize_loop.simps) (simp add: sk)
    moreover have "tokenize_loop f (Suc pos) tokens = ?r"
      using True by (subst tokenize_loop.simps) simp
    ultimately show ?thesis by simp
  next
    case False
    then have "?s = Suc pos" by (simp add: skip_whitespace_def scan_while_def)
    with False p show ?thesis
      by (subst tokenize_loop.simps) (simp add: sk tokenize_loop_end)
  qed
next
  case False
  with i have u: "unknown_char (f ! pos)" by (simp add: inert_def)
  show ?thesis
    using tokenize_loop_step[OF p False] by (simp add: lex_step_unknown[OF u])
qed

lemma tokenize_loop_skips:
  assumes "pos \<le> p" and "\<And>i. pos \<le> i \<Longrightarrow> i < p \<Longrightarrow> i < length f \<and> inert (f ! i)"
  shows "tokenize_loop f pos tokens = tokenize_loop f p tokens"
  using assms
proof (induction rule: inc_induct)
  case base
  show ?case by simp
next
  case (step n)
  have "tokenize_loop f n tokens = tokenize_loop f (Suc n) tokens"
    using step.hyps step.prems[of n] by (intro tokenize_loop_skip) auto
  also have "\<dots> = tokenize_loop f p tokens"
    using step.prems by (intro step.IH) auto
  finally show ?case .
qed

lemma tokenize_loop_blank:
  "\<not> in_string f pos \<or> length f \<le> pos \<Longrightarrow>
   tokenize_loop (blank_unknown f) pos tokens = tokenize_loop f pos tokens"
proof (induction "length f - pos" arbitrary: pos tokens rule: less_induct)
  case less
  let ?B = "blank_unknown f"
  show ?case
  proof (cases "pos < length f")
    case False
    then show ?thesis by (simp add: tokenize_loop_end)
  next
    case True
    with less.prems have top: "\<not> in_string f pos" by simp
    let ?p = "scan_while inert f pos"
    have pge: "pos \<le> ?p" by (rule scan_while_ge)
    have ple: "?p \<le> length f" using True by (intro scan_while_le) simp
    have in_all: "inert (f ! i)" if "pos \<le> i" "i < ?p" for i
      using that by (rule scan_while_all)
    have nq: "f ! i \<noteq> CHR 0x22" if "pos \<le> i" "i < ?p" for i
      using in_all[OF that] by (auto simp: inert_def isspace_def unknown_char_def ord_def)
    have tops: "\<not> in_string f i" if "pos \<le> i" "i \<le> ?p" for i
      using that ple nq by (intro top_after[OF _ _ top]) auto
    have sk: "skip_whitespace ?B pos = ?p"
      unfolding skip_whitespace_def
    proof (rule scan_while_eqI[OF pge])
      show "?p \<le> length ?B" using ple by simp
      fix i assume i: "pos \<le> i" "i < ?p"
      then show "isspace (?B ! i)"
        using in_all[OF i] tops[of i] ple by (auto simp: blank_nth inert_def space_known)
    next
      assume "?p < length ?B"
      then have l: "?p < length f" by simp
      then have "\<not> inert (f ! ?p)" by (rule scan_while_stop)
      then show "\<not> isspace (?B ! ?p)" using l by (simp add: blank_nth inert_def)
    qed
    have rhs: "tokenize_loop f pos tokens = tokenize_loop f ?p tokens"
      using pge in_all ple by (intro tokenize_loop_skips) auto
    show ?thesis
    proof (cases "?p < length f")
      case False
      with ple have e: "length f \<le> ?p" by simp
      have "tokenize_loop ?B pos tokens = (?p, tokens)"
        using True e by (subst tokenize_loop.simps) (simp add: sk)
      with rhs e show ?thesis by (simp add: tokenize_loop_end)
    next
      case l: True
      have ni: "\<not> inert (f ! ?p)" using l by (rule scan_while_stop)
      then have ns: "\<not> isspace (f ! ?p)" and nu: "\<not> unknown_char (f ! ?p)"
        by (simp_all add: inert_def)
      have tp: "\<not> in_string f ?p" using pge by (intro tops) auto
      have ls: "lex_step ?B ?p tokens = lex_step f ?p tokens"
        using l tp nu by (rule lex_step_blank)
      obtain pos2 tokens2 where r: "lex_step f ?p tokens = (pos2, tokens2)"
        by (cases "lex_step f ?p tokens")
      have adv: "?p < pos2" using lex_step_advances[OF l, of tokens] r by simp
      have top2: "\<not> in_string f pos2 \<or> length f \<le> pos2"
        using lex_step_top[OF l tp, of tokens] r by simp
      have "tokenize_loop ?B pos tokens = tokenize_loop ?B pos2 tokens2"
        using True l by (subst tokenize_loop.simps) (simp add: sk ls r)
      also have "\<dots> = tokenize_loop f pos2 tokens2"
        using adv pge l top2 by (intro less.hyps) auto
      also have "\<dots> = tokenize_loop f ?p tokens"
        using tokenize_loop_step[OF l ns, of tokens] by (simp add: r)
      finally show ?thesis using rhs by simp
    qed
  qed
qed

lemma tokenize_text_blank: "tokenize_text (blank_unknown f) = tokenize_text f"
  by (simp add: tokenize_text_def tokenize_loop_blank in_string_def)

section \<open>The parser's budget suffices\<close>

text \<open>
  On a token list that ends with \<open>EOF\<close> every parser method returns or raises when its
  budget exceeds the number of tokens from the cursor on by a small constant, and a value
  comes with a cursor past the first token read. So \<open>parse_formula\<close> and
  \<open>evaluate_formula\<close> are never \<open>None\<close>.
\<close>

lemma res_ok_raises [simp]: "res_ok ts lo (raises e)"
  by (simp add: res_ok_def raises_def)

lemma res_ok_Inl [simp]: "res_ok ts lo (Some (Inl e))"
  by (simp add: res_ok_def)

lemma res_ok_returns [simp]: "res_ok ts lo (returns (x, p)) = (lo \<le> p \<and> p < length ts)"
  by (simp add: res_ok_def returns_def)

lemma res_ok_mono: "res_ok ts lo r \<Longrightarrow> lo' \<le> lo \<Longrightarrow> res_ok ts lo' r"
  by (auto simp: res_ok_def split: option.splits sum.splits)

lemma and_then_ok:
  assumes "res_ok ts lo m"
    and "\<And>x p. lo \<le> p \<Longrightarrow> p < length ts \<Longrightarrow> res_ok ts lo' (k (x, p))"
  shows "res_ok ts lo' (and_then m k)"
proof (cases m)
  case None
  with assms(1) show ?thesis by (simp add: res_ok_def)
next
  case (Some r)
  show ?thesis
  proof (cases r)
    case (Inl e)
    with Some show ?thesis by (simp add: res_ok_def and_then_def)
  next
    case (Inr xp)
    obtain x p where xp: "xp = (x, p)" by (cases xp)
    from assms(1) Some Inr xp have "lo \<le> p" "p < length ts" by (simp_all add: res_ok_def)
    from assms(2)[OF this] show ?thesis using Some Inr xp by (simp add: and_then_def)
  qed
qed

lemma advance_token:
  assumes "eof_terminated ts" and "pos < length ts" and "tok_type (current_token ts pos) \<noteq> EOF"
  shows "advance ts pos = Suc pos \<and> Suc pos < length ts"
proof -
  have "Suc pos < length ts"
  proof (rule ccontr)
    assume "\<not> Suc pos < length ts"
    with assms(2) have "pos = length ts - 1" by simp
    with assms(1) have "ts ! pos = last ts" by (simp add: eof_terminated_def last_conv_nth)
    with assms show False by (simp add: current_token_def eof_terminated_def)
  qed
  then show ?thesis by (simp add: advance_def)
qed

lemma at_operator_not_eof: "at_operator ts pos ops \<Longrightarrow> tok_type (current_token ts pos) \<noteq> EOF"
  by (simp add: at_operator_def)

lemma arguments_loop_ok:
  assumes e: "eof_terminated ts" and x: "expr_ok ts expr r0"
  shows "pos < length ts \<Longrightarrow> length ts - pos \<le> r0 \<Longrightarrow> length ts - pos + 1 \<le> n
         \<Longrightarrow> res_ok ts pos (arguments_loop expr n ts args pos)"
proof (induction n arbitrary: pos args)
  case 0
  then show ?case by simp
next
  case (Suc n)
  show ?case
  proof (cases "tok_type (current_token ts pos) = COMMA")
    case True
    then have a: "advance ts pos = Suc pos" "Suc pos < length ts"
      using advance_token[OF e Suc.prems(1)] by simp_all
    have "res_ok ts (Suc (Suc pos)) (expr ts (Suc pos))"
      using x a Suc.prems by (simp add: expr_ok_def)
    then have "res_ok ts pos (and_then (expr ts (Suc pos))
                 (\<lambda>(arg, pos'). arguments_loop expr n ts (args @ [arg]) pos'))"
    proof (rule and_then_ok)
      fix y p assume p: "Suc (Suc pos) \<le> p" "p < length ts"
      have "res_ok ts p (arguments_loop expr n ts (args @ [y]) p)"
        using Suc.prems p by (intro Suc.IH) auto
      then show "res_ok ts pos (case (y, p) of (arg, pos') \<Rightarrow> arguments_loop expr n ts (args @ [arg]) pos')"
        using p by (auto intro: res_ok_mono)
    qed
    with True a show ?thesis by simp
  next
    case False
    then show ?thesis using Suc.prems by simp
  qed
qed

lemma parse_function_ok:
  assumes e: "eof_terminated ts" and x: "expr_ok ts expr r0"
    and pos: "pos < length ts" "length ts - pos \<le> r0" "length ts - pos + 1 \<le> n"
    and f: "tok_type (current_token ts pos) = FUNCTION"
  shows "res_ok ts (Suc pos) (parse_function expr n ts pos)"
proof -
  have a1: "advance ts pos = Suc pos" "Suc pos < length ts"
    using advance_token[OF e pos(1)] f by simp_all
  show ?thesis
  proof (cases "tok_type (current_token ts (Suc pos)) = LPAREN")
    case False
    then show ?thesis by (simp add: parse_function_def a1)
  next
    case True
    then have a2: "advance ts (Suc pos) = Suc (Suc pos)" "Suc (Suc pos) < length ts"
      using advance_token[OF e a1(2)] by simp_all
    let ?inner = "if tok_type (current_token ts (Suc (Suc pos))) \<noteq> RPAREN
                  then and_then (expr ts (Suc (Suc pos)))
                         (\<lambda>(arg, pos3). arguments_loop expr n ts [arg] pos3)
                  else returns ([], Suc (Suc pos))"
    have inner: "res_ok ts (Suc (Suc pos)) ?inner"
    proof (cases "tok_type (current_token ts (Suc (Suc pos))) \<noteq> RPAREN")
      case True
      have "res_ok ts (Suc (Suc (Suc pos))) (expr ts (Suc (Suc pos)))"
        using x a2 pos by (simp add: expr_ok_def)
      then have "res_ok ts (Suc (Suc pos)) (and_then (expr ts (Suc (Suc pos)))
                         (\<lambda>(arg, pos3). arguments_loop expr n ts [arg] pos3))"
      proof (rule and_then_ok)
        fix y p assume p: "Suc (Suc (Suc pos)) \<le> p" "p < length ts"
        have "res_ok ts p (arguments_loop expr n ts [y] p)"
          using pos p by (intro arguments_loop_ok[OF e x]) auto
        then show "res_ok ts (Suc (Suc pos)) (case (y, p) of (arg, pos3) \<Rightarrow> arguments_loop expr n ts [arg] pos3)"
          using p by (auto intro: res_ok_mono)
      qed
      with True show ?thesis by simp
    next
      case False
      then show ?thesis using a2 by simp
    qed
    have "res_ok ts (Suc pos) (and_then ?inner
            (\<lambda>(args, pos4). if tok_type (current_token ts pos4) \<noteq> RPAREN then raises ValueError
                             else returns (FunctionNode (tok_value (current_token ts pos)) args, advance ts pos4)))"
      using inner
    proof (rule and_then_ok)
      fix y p assume p: "Suc (Suc pos) \<le> p" "p < length ts"
      show "res_ok ts (Suc pos) (case (y, p) of (args, pos4) \<Rightarrow>
              if tok_type (current_token ts pos4) \<noteq> RPAREN then raises ValueError
              else returns (FunctionNode (tok_value (current_token ts pos)) args, advance ts pos4))"
        using advance_token[OF e p(2)] p by auto
    qed
    then show ?thesis using True by (simp add: parse_function_def a1 a2 Let_def)
  qed
qed

lemma parse_primary_ok:
  assumes e: "eof_terminated ts" and x: "expr_ok ts expr r0"
    and pos: "pos < length ts" "length ts - pos \<le> r0" "length ts - pos + 1 \<le> n"
  shows "res_ok ts (Suc pos) (parse_primary expr n ts pos)"
proof (cases "tok_type (current_token ts pos)")
  case NUMBER
  then show ?thesis using advance_token[OF e pos(1)]
    by (auto simp: parse_primary_def Let_def and_then_def lift_result_def split: sum.splits)
next
  case STRING
  then show ?thesis using advance_token[OF e pos(1)]
    by (auto simp: parse_primary_def Let_def)
next
  case CELL_REF
  then show ?thesis using advance_token[OF e pos(1)]
    by (auto simp: parse_primary_def Let_def and_then_def lift_result_def split: sum.splits)
next
  case RANGE
  then show ?thesis using advance_token[OF e pos(1)]
    by (auto simp: parse_primary_def Let_def and_then_def lift_result_def split: sum.splits)
next
  case FUNCTION
  then show ?thesis using parse_function_ok[OF e x pos] by (simp add: parse_primary_def Let_def)
next
  case LPAREN
  then have a: "advance ts pos = Suc pos" "Suc pos < length ts"
    using advance_token[OF e pos(1)] by simp_all
  have "res_ok ts (Suc (Suc pos)) (expr ts (Suc pos))"
    using x a pos by (simp add: expr_ok_def)
  then have "res_ok ts (Suc pos) (and_then (expr ts (Suc pos))
       (\<lambda>(node, pos'). returns (node, if tok_type (current_token ts pos') = RPAREN
                                        then advance ts pos' else pos')))"
  proof (rule and_then_ok)
    fix y p assume p: "Suc (Suc pos) \<le> p" "p < length ts"
    show "res_ok ts (Suc pos) (case (y, p) of (node, pos') \<Rightarrow>
            returns (node, if tok_type (current_token ts pos') = RPAREN then advance ts pos' else pos'))"
      using advance_token[OF e p(2)] p by auto
  qed
  then show ?thesis using LPAREN by (simp add: parse_primary_def Let_def a)
qed (simp_all add: parse_primary_def Let_def)

lemma parse_unary_ok:
  assumes e: "eof_terminated ts" and x: "expr_ok ts expr r0"
  shows "pos < length ts \<Longrightarrow> length ts - pos \<le> r0 \<Longrightarrow> length ts - pos + 2 \<le> n
         \<Longrightarrow> res_ok ts (Suc pos) (parse_unary expr n ts pos)"
proof (induction n arbitrary: pos)
  case 0
  then show ?case by simp
next
  case (Suc n)
  show ?case
  proof (cases "at_operator ts pos [''+'', ''-'']")
    case True
    then have a: "advance ts pos = Suc pos" "Suc pos < length ts"
      using advance_token[OF e Suc.prems(1)] at_operator_not_eof by simp_all
    have "res_ok ts (Suc (Suc pos)) (parse_unary expr n ts (Suc pos))"
      using Suc.prems a by (intro Suc.IH) auto
    then have "res_ok ts (Suc pos) (and_then (parse_unary expr n ts (Suc pos))
         (\<lambda>(operand, pos'). returns (UnaryOpNode (tok_value (current_token ts pos)) operand, pos')))"
      by (rule and_then_ok) auto
    with True a show ?thesis by (simp add: Let_def)
  next
    case False
    have "res_ok ts (Suc pos) (parse_primary expr n ts pos)"
      using Suc.prems by (intro parse_primary_ok[OF e x]) auto
    with False show ?thesis by simp
  qed
qed

lemma parse_power_ok:
  assumes e: "eof_terminated ts" and x: "expr_ok ts expr r0"
  shows "pos < length ts \<Longrightarrow> length ts - pos \<le> r0 \<Longrightarrow> length ts - pos + 3 \<le> n
         \<Longrightarrow> res_ok ts (Suc pos) (parse_power expr n ts pos)"
proof (induction n arbitrary: pos)
  case 0
  then show ?case by simp
next
  case (Suc n)
  have "res_ok ts (Suc pos) (parse_unary expr n ts pos)"
    using Suc.prems by (intro parse_unary_ok[OF e x]) auto
  then have "res_ok ts (Suc pos) (and_then (parse_unary expr n ts pos)
       (\<lambda>(node, pos').
          if at_operator ts pos' [''^'']
          then (let operator = tok_value (current_token ts pos')
                in and_then (parse_power expr n ts (advance ts pos'))
                     (\<lambda>(right, pos''). returns (BinaryOpNode node operator right, pos'')))
          else returns (node, pos')))"
  proof (rule and_then_ok)
    fix y p assume p: "Suc pos \<le> p" "p < length ts"
    show "res_ok ts (Suc pos) (case (y, p) of (node, pos') \<Rightarrow>
          if at_operator ts pos' [''^'']
          then (let operator = tok_value (current_token ts pos')
                in and_then (parse_power expr n ts (advance ts pos'))
                     (\<lambda>(right, pos''). returns (BinaryOpNode node operator right, pos'')))
          else returns (node, pos'))"
    proof (cases "at_operator ts p [''^'']")
      case True
      then have a: "advance ts p = Suc p" "Suc p < length ts"
        using advance_token[OF e p(2)] at_operator_not_eof by simp_all
      have "res_ok ts (Suc (Suc p)) (parse_power expr n ts (Suc p))"
        using Suc.prems a p by (intro Suc.IH) auto
      then have "res_ok ts (Suc pos) (and_then (parse_power expr n ts (Suc p))
                     (\<lambda>(right, pos''). returns (BinaryOpNode y (tok_value (current_token ts p)) right, pos'')))"
        by (rule and_then_ok) (use p in auto)
      with True a show ?thesis by (simp add: Let_def)
    next
      case False
      then show ?thesis using p by simp
    qed
  qed
  then show ?case by simp
qed

lemma multiplication_loop_ok:
  assumes e: "eof_terminated ts" and x: "expr_ok ts expr r0"
  shows "pos < length ts \<Longrightarrow> length ts - pos \<le> r0 \<Longrightarrow> length ts - pos + 3 \<le> n
         \<Longrightarrow> res_ok ts pos (multiplication_loop expr n ts node pos)"
proof (induction n arbitrary: pos node)
  case 0
  then show ?case by simp
next
  case (Suc n)
  show ?case
  proof (cases "at_operator ts pos [''*'', ''/'']")
    case True
    then have a: "advance ts pos = Suc pos" "Suc pos < length ts"
      using advance_token[OF e Suc.prems(1)] at_operator_not_eof by simp_all
    have "res_ok ts (Suc (Suc pos)) (parse_power expr n ts (Suc pos))"
      using Suc.prems a by (intro parse_power_ok[OF e x]) auto
    then have "res_ok ts pos (and_then (parse_power expr n ts (Suc pos))
         (\<lambda>(right, pos'). multiplication_loop expr n ts
              (BinaryOpNode node (tok_value (current_token ts pos)) right) pos'))"
    proof (rule and_then_ok)
      fix y p assume p: "Suc (Suc pos) \<le> p" "p < length ts"
      have "res_ok ts p (multiplication_loop expr n ts (BinaryOpNode node (tok_value (current_token ts pos)) y) p)"
        using Suc.prems p by (intro Suc.IH) auto
      then show "res_ok ts pos (case (y, p) of (right, pos') \<Rightarrow> multiplication_loop expr n ts
              (BinaryOpNode node (tok_value (current_token ts pos)) right) pos')"
        using p by (auto intro: res_ok_mono)
    qed
    with True a show ?thesis by (simp add: Let_def)
  next
    case False
    then show ?thesis using Suc.prems by simp
  qed
qed

lemma parse_multiplication_ok:
  assumes e: "eof_terminated ts" and x: "expr_ok ts expr r0"
    and pos: "pos < length ts" "length ts - pos \<le> r0" "length ts - pos + 3 \<le> n"
  shows "res_ok ts (Suc pos) (parse_multiplication expr n ts pos)"
proof -
  have "res_ok ts (Suc pos) (parse_power expr n ts pos)"
    using pos by (intro parse_power_ok[OF e x]) auto
  then show ?thesis
    unfolding parse_multiplication_def
  proof (rule and_then_ok)
    fix y p assume p: "Suc pos \<le> p" "p < length ts"
    have "res_ok ts p (multiplication_loop expr n ts y p)"
      using pos p by (intro multiplication_loop_ok[OF e x]) auto
    then show "res_ok ts (Suc pos) (case (y, p) of (node, pos') \<Rightarrow> multiplication_loop expr n ts node pos')"
      using p by (auto intro: res_ok_mono)
  qed
qed

lemma addition_loop_ok:
  assumes e: "eof_terminated ts" and x: "expr_ok ts expr r0"
  shows "pos < length ts \<Longrightarrow> length ts - pos \<le> r0 \<Longrightarrow> length ts - pos + 3 \<le> n
         \<Longrightarrow> res_ok ts pos (addition_loop expr n ts node pos)"
proof (induction n arbitrary: pos node)
  case 0
  then show ?case by simp
next
  case (Suc n)
  show ?case
  proof (cases "at_operator ts pos [''+'', ''-'']")
    case True
    then have a: "advance ts pos = Suc pos" "Suc pos < length ts"
      using advance_token[OF e Suc.prems(1)] at_operator_not_eof by simp_all
    have "res_ok ts (Suc (Suc pos)) (parse_multiplication expr n ts (Suc pos))"
      using Suc.prems a by (intro parse_multiplication_ok[OF e x]) auto
    then have "res_ok ts pos (and_then (parse_multiplication expr n ts (Suc pos))
         (\<lambda>(right, pos'). addition_loop expr n ts
              (BinaryOpNode node (tok_value (current_token ts pos)) right) pos'))"
    proof (rule and_then_ok)
      fix y p assume p: "Suc (Suc pos) \<le> p" "p < length ts"
      have "res_ok ts p (addition_loop expr n ts (BinaryOpNode node (tok_value (current_token ts pos)) y) p)"
        using Suc.prems p by (intro Suc.IH) auto
      then show "res_ok ts pos (case (y, p) of (right, pos') \<Rightarrow> addition_loop expr n ts
              (BinaryOpNode node (tok_value (current_token ts pos)) right) pos')"
        using p by (auto intro: res_ok_mono)
    qed
    with True a show ?thesis by (simp add: Let_def)
  next
    case False
    then show ?thesis using Suc.prems by simp
  qed
qed

lemma parse_addition_ok:
  assumes e: "eof_terminated ts" and x: "expr_ok ts expr r0"
    and pos: "pos < length ts" "length ts - pos \<le> r0" "length ts - pos + 3 \<le> n"
  shows "res_ok ts (Suc pos) (parse_addition expr n ts pos)"
proof -
  have "res_ok ts (Suc pos) (parse_multiplication expr n ts pos)"
    using pos by (intro parse_multiplication_ok[OF e x]) auto
  then show ?thesis
    unfolding parse_addition_def
  proof (rule and_then_ok)
    fix y p assume p: "Suc pos \<le> p" "p < length ts"
    have "res_ok ts p (addition_loop expr n ts y p)"
      using pos p by (intro addition_loop_ok[OF e x]) auto
    then show "res_ok ts (Suc pos) (case (y, p) of (node, pos') \<Rightarrow> addition_loop expr n ts node pos')"
      using p by (auto intro: res_ok_mono)
  qed
qed

lemma comparison_loop_ok:
  assumes e: "eof_terminated ts" and x: "expr_ok ts expr r0"
  shows "pos < length ts \<Longrightarrow> length ts - pos \<le> r0 \<Longrightarrow> length ts - pos + 3 \<le> n
         \<Longrightarrow> res_ok ts pos (comparison_loop expr n ts node pos)"
proof (induction n arbitrary: pos node)
  case 0
  then show ?case by simp
next
  case (Suc n)
  show ?case
  proof (cases "at_operator ts pos [''='', ''<>'', ''<'', ''<='', ''>'', ''>='']")
    case True
    then have a: "advance ts pos = Suc pos" "Suc pos < length ts"
      using advance_token[OF e Suc.prems(1)] at_operator_not_eof by simp_all
    have "res_ok ts (Suc (Suc pos)) (parse_addition expr n ts (Suc pos))"
      using Suc.prems a by (intro parse_addition_ok[OF e x]) auto
    then have "res_ok ts pos (and_then (parse_addition expr n ts (Suc pos))
         (\<lambda>(right, pos'). comparison_loop expr n ts
              (BinaryOpNode node (tok_value (current_token ts pos)) right) pos'))"
    proof (rule and_then_ok)
      fix y p assume p: "Suc (Suc pos) \<le> p" "p < length ts"
      have "res_ok ts p (comparison_loop expr n ts (BinaryOpNode node (tok_value (current_token ts pos)) y) p)"
        using Suc.prems p by (intro Suc.IH) auto
      then show "res_ok ts pos (case (y, p) of (right, pos') \<Rightarrow> comparison_loop expr n ts
              (BinaryOpNode node (tok_value (current_token ts pos)) right) pos')"
        using p by (auto intro: res_ok_mono)
    qed
    with True a show ?thesis by (simp add: Let_def)
  next
    case False
    then show ?thesis using Suc.prems by simp
  qed
qed

lemma parse_comparison_ok:
  assumes e: "eof_terminated ts" and x: "expr_ok ts expr r0"
    and pos: "pos < length ts" "length ts - pos \<le> r0" "length ts - pos + 3 \<le> n"
  shows "res_ok ts (Suc pos) (parse_comparison expr n ts pos)"
proof -
  have "res_ok ts (Suc pos) (parse_addition expr n ts pos)"
    using pos by (intro parse_addition_ok[OF e x]) auto
  then show ?thesis
    unfolding parse_comparison_def
  proof (rule and_then_ok)
    fix y p assume p: "Suc pos \<le> p" "p < length ts"
    have "res_ok ts p (comparison_loop expr n ts y p)"
      using pos p by (intro comparison_loop_ok[OF e x]) auto
    then show "res_ok ts (Suc pos) (case (y, p) of (node, pos') \<Rightarrow> comparison_loop expr n ts node pos')"
      using p by (auto intro: res_ok_mono)
  qed
qed

lemma parse_expression_ok:
  assumes e: "eof_terminated ts"
  shows "pos < length ts \<Longrightarrow> length ts - pos + 4 \<le> k
         \<Longrightarrow> res_ok ts (Suc pos) (parse_expression k ts pos)"
proof (induction k arbitrary: pos)
  case 0
  then show ?case by simp
next
  case (Suc k)
  have x: "expr_ok ts (parse_expression k) (length ts - pos)"
    unfolding expr_ok_def
  proof (intro allI impI)
    fix pos' assume "pos' < length ts \<and> length ts - pos' < length ts - pos"
    then show "res_ok ts (Suc pos') (parse_expression k ts pos')"
      using Suc.prems by (intro Suc.IH) auto
  qed
  show ?case
    using parse_comparison_ok[OF e x, of pos k] Suc.prems by simp
qed

lemma parser_parse_total:
  assumes "eof_terminated ts"
  shows "parser_parse ts \<noteq> None"
proof -
  from assms have "0 < length ts" by (simp add: eof_terminated_def)
  then have "res_ok ts (Suc 0) (parse_expression (parse_fuel ts) ts 0)"
    by (intro parse_expression_ok[OF assms]) (auto simp: parse_fuel_def)
  then show ?thesis
    by (auto simp: parser_parse_def res_ok_def and_then_def returns_def split: option.splits sum.splits)
qed

lemma tokenize_text_eof: "eof_terminated (tokenize_text f)"
  by (simp add: tokenize_text_def eof_terminated_def mk_token_def split: prod.splits)

lemma parse_formula_total: "parse_formula formula \<noteq> None"
  by (simp add: parse_formula_def tokenize_def parser_parse_total tokenize_text_eof)

lemma evaluate_formula_total: "evaluate_formula formula g \<noteq> None"
  using parse_formula_total[of formula]
  by (auto simp: evaluate_formula_def split: option.splits sum.splits)

section \<open>Properties of formula evaluation\<close>

text \<open>
  Claim C9 says that a formula containing a character the lexer does not recognise
  evaluates to \<open>#ERROR!\<close>. The tokenizer skips such a character: \<open>=1+2!\<close> evaluates to 3.
\<close>

theorem unknown_character_error_counterexample:
  "unknown_char (CHR ''!'') \<and>
   evaluate_formula ''=1+2!'' empty_lookup = Some (VFloat 3) \<and>
   evaluate_formula ''=1+2!'' empty_lookup \<noteq> Some (VStr ''#ERROR!'')"
  by code_simp

text \<open>
  Claim C9, as the code has it: an unknown character is read like white space. For every
  formula the tokens are those of the tokenizer's text (the stripped formula without its
  leading \<open>=\<close>) in which every unknown character outside the string literals is replaced by
  a space. Evaluation always returns: \<open>#ERROR!\<close> when these tokens do not parse, and
  otherwise the value of the parsed expression.
\<close>

theorem unknown_characters_read_as_spaces:
  "tokenize formula = tokenize_text (blank_unknown (tokenizer_init formula)) \<and>
   (\<exists>r. parser_parse (tokenize_text (blank_unknown (tokenizer_init formula))) = Some r \<and>
        evaluate_formula formula g =
          Some (case r of Inl e \<Rightarrow> VStr ''#ERROR!'' | Inr ast \<Rightarrow> evaluate g ast))"
proof -
  let ?ts = "tokenize_text (blank_unknown (tokenizer_init formula))"
  have t: "tokenize formula = ?ts"
    by (simp add: tokenize_def tokenize_text_blank)
  have "parser_parse ?ts \<noteq> None"
    by (rule parser_parse_total) (rule tokenize_text_eof)
  then obtain r where r: "parser_parse ?ts = Some r" by auto
  have "evaluate_formula formula g =
          Some (case r of Inl e \<Rightarrow> VStr ''#ERROR!'' | Inr ast \<Rightarrow> evaluate g ast)"
    using r t by (simp add: evaluate_formula_def parse_formula_def split: sum.splits)
  with t r show ?thesis by blast
qed

theorem unknown_characters_read_as_spaces_witness:
  "blank_unknown (tokenizer_init ''=1+2!'') = ''1+2 '' \<and>
   tokenize ''=1+2!'' = tokenize_text ''1+2 '' \<and>
   evaluate_formula ''=1+2!'' empty_lookup = Some (VFloat 3)"
proof -
  have b: "blank_unknown (tokenizer_init ''=1+2!'') = ''1+2 ''" by code_simp
  have p: "parser_parse (tokenize_text ''1+2 '')
             = Some (Inr (BinaryOpNode (NumberNode 1) ''+'' (NumberNode 2)))"
    by code_simp
  have e: "evaluate empty_lookup (BinaryOpNode (NumberNode 1) ''+'' (NumberNode 2)) = VFloat 3"
    by code_simp
  from unknown_characters_read_as_spaces[of "''=1+2!''" empty_lookup] show ?thesis
    unfolding b p by (auto simp: e)
qed





section \<open>Properties of the dependency graph\<close>

lemma lookup_set_update:
  "lookup_set (AList.update k v d) x = (if x = k then v else lookup_set d x)"
  by (simp add: lookup_set_def update_conv')

lemma lookup_set_discard_fold:
  "lookup_set (fold (\<lambda>dep d. AList.update dep (removeAll cell (lookup_set d dep)) d) ds d0) x
     = (if x \<in> set ds then removeAll cell (lookup_set d0 x) else lookup_set d0 x)"
  by (induction ds arbitrary: d0) (auto simp: lookup_set_update)

lemma dependencies_clear:
  "get_dependencies (clear_dependencies g cell) c = (if c = cell then [] else get_dependencies g c)"
  by (simp add: get_dependencies_def clear_dependencies_def Let_def lookup_set_update)

lemma dependents_clear:
  "get_dependents (clear_dependencies g cell) d
     = (if d \<in> set (get_dependencies g cell) then removeAll cell (get_dependents g d)
        else get_dependents g d)"
  by (simp add: get_dependents_def get_dependencies_def clear_dependencies_def Let_def
      lookup_set_discard_fold)

lemma set_set_add: "set (set_add x xs) = insert x (set xs)"
  by (auto simp: set_add_def)

lemma dependencies_add:
  "set (get_dependencies (add_dependency g a b) c)
     = (if c = a then insert b (set (get_dependencies g c)) else set (get_dependencies g c))"
  by (simp add: get_dependencies_def add_dependency_def lookup_set_update set_set_add)

lemma dependents_add:
  "set (get_dependents (add_dependency g a b) d)
     = (if d = b then insert a (set (get_dependents g d)) else set (get_dependents g d))"
  by (simp add: get_dependents_def add_dependency_def lookup_set_update set_set_add)

lemma consistent_new: "graph_consistent new_graph"
  by (simp add: graph_consistent_def new_graph_def get_dependencies_def get_dependents_def lookup_set_def)

lemma consistent_clear:
  assumes "graph_consistent g"
  shows "graph_consistent (clear_dependencies g cell)"
  unfolding graph_consistent_def
proof (intro allI)
  fix c d
  from assms have k: "\<And>c d. (d \<in> set (get_dependencies g c)) = (c \<in> set (get_dependents g d))"
    unfolding graph_consistent_def by blast
  show "(d \<in> set (get_dependencies (clear_dependencies g cell) c))
      = (c \<in> set (get_dependents (clear_dependencies g cell) d))"
    using k[of d c] k[of d cell] by (auto simp: dependencies_clear dependents_clear)
qed

lemma consistent_add:
  assumes "graph_consistent g"
  shows "graph_consistent (add_dependency g a b)"
  using assms unfolding graph_consistent_def
  by (auto simp: dependencies_add dependents_add)

lemma consistent_cache:
  "graph_consistent (g\<lparr>ast_cache := c\<rparr>) = graph_consistent g"
  by (simp add: graph_consistent_def get_dependencies_def get_dependents_def)

lemma consistent_add_fold:
  "graph_consistent g \<Longrightarrow> graph_consistent (fold (\<lambda>dep g'. add_dependency g' a dep) ds g)"
  by (induction ds arbitrary: g) (auto intro: consistent_add)

lemma consistent_register:
  "graph_consistent g \<Longrightarrow> graph_consistent (register_formula g pos ast)"
  by (simp add: register_formula_def consistent_add_fold consistent_cache)

lemma reachable_consistent: "reachable_graph g \<Longrightarrow> graph_consistent g"
  by (induction rule: reachable_graph.induct)
     (auto intro: consistent_new consistent_clear consistent_add simp: consistent_cache)

lemma graph_with_sheet [simp]: "dependency_graph (with_sheet eng sh) = dependency_graph eng"
  by (simp add: with_sheet_def)

lemma graph_calculate_cell [simp]: "dependency_graph (calculate_cell eng pos) = dependency_graph eng"
  by (simp add: calculate_cell_def Let_def split: prod.splits option.splits)

lemma graph_calculate_fold [simp]:
  "dependency_graph (fold (\<lambda>cell_pos e. calculate_cell e cell_pos) order eng) = dependency_graph eng"
  by (induction order arbitrary: eng) auto

lemma graph_recalculate: "recalculate eng = Some eng' \<Longrightarrow> dependency_graph eng' = dependency_graph eng"
  by (auto simp: recalculate_def split: if_splits option.splits)

lemma graph_mark_dirty: "mark_dirty eng cell = Some eng' \<Longrightarrow> dependency_graph eng' = dependency_graph eng"
  by (auto simp: mark_dirty_def split: option.splits)

lemma graph_set_cell_formula:
  assumes "set_cell_formula eng row col formula = Some eng'"
  shows "dependency_graph eng' = clear_dependencies (dependency_graph eng) (row, col)
       \<or> (\<exists>ast. dependency_graph eng'
             = register_formula (clear_dependencies (dependency_graph eng) (row, col)) (row, col) ast)"
  using assms
  by (auto simp: set_cell_formula_def Let_def
      split: if_splits option.splits sum.splits dest!: graph_recalculate graph_mark_dirty)

lemma consistent_set_cell_formula:
  assumes "graph_consistent (dependency_graph eng)" and "set_cell_formula eng row col formula = Some eng'"
  shows "graph_consistent (dependency_graph eng')"
  using graph_set_cell_formula[OF assms(2)] assms(1)
  by (auto intro!: consistent_clear consistent_register)

text \<open>
  Claim C2. In every reachable state of the dependency graph, for all addresses \<open>c\<close> and
  \<open>d\<close>, \<open>d\<close> is in \<open>dependencies[c]\<close> if and only if \<open>c\<close> is in \<open>dependents[d]\<close>; the
  operations \<open>clear_dependencies\<close> and \<open>add_dependency\<close> preserve this, and so does
  \<open>set_cell_formula\<close>, which is built from them.
\<close>

theorem dependency_maps_consistent:
  "(reachable_graph g \<longrightarrow>
      (\<forall>c d. (d \<in> set (get_dependencies g c)) = (c \<in> set (get_dependents g d)))) \<and>
   (graph_consistent g \<longrightarrow> graph_consistent (clear_dependencies g cell)) \<and>
   (graph_consistent g \<longrightarrow> graph_consistent (add_dependency g a b)) \<and>
   (graph_consistent (dependency_graph eng) \<and> set_cell_formula eng row col formula = Some eng'
      \<longrightarrow> graph_consistent (dependency_graph eng'))"
proof (intro conjI impI)
  assume "reachable_graph g"
  then have "graph_consistent g" by (rule reachable_consistent)
  then show "\<forall>c d. (d \<in> set (get_dependencies g c)) = (c \<in> set (get_dependents g d))"
    unfolding graph_consistent_def .
next
  assume "graph_consistent g"
  then show "graph_consistent (clear_dependencies g cell)" by (rule consistent_clear)
next
  assume "graph_consistent g"
  then show "graph_consistent (add_dependency g a b)" by (rule consistent_add)
next
  assume "graph_consistent (dependency_graph eng) \<and> set_cell_formula eng row col formula = Some eng'"
  then show "graph_consistent (dependency_graph eng')"
    using consistent_set_cell_formula by blast
qed

theorem dependency_maps_consistent_witness:
  "reachable_graph example_graph \<and>
   get_dependencies example_graph (0, 0) = [(0, 1), (0, 2)] \<and>
   get_dependents example_graph (0, 1) = [(0, 0)] \<and>
   ((0, 1) \<in> set (get_dependencies example_graph (0, 0)))
     = ((0, 0) \<in> set (get_dependents example_graph (0, 1))) \<and>
   graph_consistent (clear_dependencies example_graph (0, 0)) \<and>
   get_dependents (clear_dependencies example_graph (0, 0)) (0, 1) = [] \<and>
   graph_consistent (add_dependency example_graph (0, 2) (0, 0)) \<and>
   graph_consistent (dependency_graph (the (set_cell_formula (new_engine new_model) 0 0 ''=B1'')))"
proof -
  have r: "reachable_graph example_graph"
    unfolding example_graph_def by (intro reachable_graph.intros)
  from dependency_maps_consistent[of example_graph] r
  have k: "\<forall>c d. (d \<in> set (get_dependencies example_graph c))
             = (c \<in> set (get_dependents example_graph d))"
    by blast
  then have c: "graph_consistent example_graph" by (simp add: graph_consistent_def)
  from k have k1: "((0, 1) \<in> set (get_dependencies example_graph (0, 0)))
     = ((0, 0) \<in> set (get_dependents example_graph (0, 1)))" by blast
  from dependency_maps_consistent[of example_graph "(0, 0)"] c
  have d: "graph_consistent (clear_dependencies example_graph (0, 0))" by blast
  from dependency_maps_consistent[of example_graph _ "(0, 2)" "(0, 0)"] c
  have e: "graph_consistent (add_dependency example_graph (0, 2) (0, 0))" by blast
  have v1: "get_dependencies example_graph (0, 0) = [(0, 1), (0, 2)]"
    and v2: "get_dependents example_graph (0, 1) = [(0, 0)]"
    and v3: "get_dependents (clear_dependencies example_graph (0, 0)) (0, 1) = []"
    by code_simp+
  have n: "graph_consistent (dependency_graph (new_engine new_model))"
    by (simp add: new_engine_def consistent_new)
  have s: "set_cell_formula (new_engine new_model) 0 0 ''=B1'' \<noteq> None"
    by code_simp
  then obtain eng' where s': "set_cell_formula (new_engine new_model) 0 0 ''=B1'' = Some eng'"
    by blast
  from dependency_maps_consistent[of _ _ _ _ "new_engine new_model" 0 0 "''=B1''" eng'] n s'
  have f: "graph_consistent (dependency_graph eng')" by blast
  from r k1 d e v1 v2 v3 f s' show ?thesis by simp
qed

end
